theory Spec2Isabelle
  imports Complex_Main
begin

section \<open>Decimal arithmetic\<close>

text \<open>
  Every amount of \<^verbatim>\<open>src/main.py\<close> is a \<^verbatim>\<open>decimal.Decimal\<close>. A finite
  Decimal denotes a rational number (a signed coefficient times a power of ten) and is
  compared by that number, so an amount is modelled by its value, a \<open>rat\<close>. The
  program never changes the arithmetic context, so each operator (\<^verbatim>\<open>+ - * /\<close>,
  \<^verbatim>\<open>abs\<close>, unary minus) returns the exact result rounded to the default context:
  28 significant digits, ties to the even coefficient (\<^verbatim>\<open>prec=28\<close>,
  \<^verbatim>\<open>ROUND_HALF_EVEN\<close>). Construction from a string, comparison, \<^verbatim>\<open>min\<close> and
  \<^verbatim>\<open>max\<close> do not round.

  Scope: finite values whose exponent stays inside the context's range
  (\<^verbatim>\<open>Emin=-999999\<close>, \<^verbatim>\<open>Emax=999999\<close>). The special values NaN and Infinity,
  and the Overflow and subnormal results outside that range, are not modelled.
\<close>

type_synonym decimal = rat


text \<open>The number of decimal digits of a natural number (of a coefficient).\<close>

fun ndigits :: "nat \<Rightarrow> nat" where
  "ndigits n = (if n < 10 then 1 else Suc (ndigits (n div 10)))"

declare ndigits.simps [simp del]

text \<open>Powers of ten with an integer exponent.\<close>

definition pow10 :: "int \<Rightarrow> rat" where
  "pow10 k = (if 0 \<le> k then 10 ^ nat k else 1 / 10 ^ nat (- k))"

text \<open>
  \<^verbatim>\<open>Decimal.adjusted()\<close>: the exponent of the most significant digit, the
  \<open>e\<close> with \<open>10^e \<le> |x| < 10^(e+1)\<close>. It is computed from the digit counts of the
  numerator and denominator, which fix \<open>e\<close> up to one.
\<close>

definition adjusted :: "rat \<Rightarrow> int" where
  "adjusted x =
     (let (p, q) = quotient_of \<bar>x\<bar>;
          d = int (ndigits (nat p)) - int (ndigits (nat q))
      in if pow10 d \<le> \<bar>x\<bar> then d else d - 1)"

text \<open>\<^verbatim>\<open>ROUND_HALF_EVEN\<close>: to the nearest integer, a tie to the even one.\<close>

definition round_half_even :: "rat \<Rightarrow> int" where
  "round_half_even x =
     (let f = \<lfloor>x\<rfloor>; r = x - of_int f
      in if r < 1 / 2 then f
         else if 1 / 2 < r then f + 1
         else if even f then f else f + 1)"

text \<open>The precision of the default context, \<^verbatim>\<open>getcontext().prec\<close>.\<close>

definition prec :: int where
  "prec = 28"

text \<open>
  The rounding every arithmetic result goes through: keep \<open>prec\<close> significant
  digits, that is, round to a multiple of \<open>10^(adjusted x - (prec - 1))\<close>.
\<close>

definition context_round :: "rat \<Rightarrow> rat" where
  "context_round x =
     (if x = 0 then 0
      else let q = pow10 (adjusted x - (prec - 1))
           in of_int (round_half_even (x / q)) * q)"

text \<open>
  The values a Decimal of at most 28 digits can hold. Rounding leaves exactly these
  unchanged; every arithmetic result is one of them.
\<close>

definition representable :: "rat \<Rightarrow> bool" where
  "representable x \<longleftrightarrow> (\<exists>c s. \<bar>c\<bar> < 10 ^ 28 \<and> x = of_int c * pow10 s)"

subsection \<open>Properties of the rounding\<close>

lemma pow10_powi: "pow10 k = 10 powi k"
  by (simp add: pow10_def power_int_def field_simps)

lemma pow10_pos [simp]: "0 < pow10 k"
  by (simp add: pow10_powi)

lemma pow10_nonzero [simp]: "pow10 k \<noteq> 0"
  by (metis pow10_pos less_irrefl)

lemma pow10_nonneg [simp]: "0 \<le> pow10 k"
  by (rule less_imp_le) (rule pow10_pos)

lemma pow10_abs [simp]: "\<bar>pow10 k\<bar> = pow10 k"
  by (rule abs_of_nonneg) (rule pow10_nonneg)

lemma pow10_add: "pow10 (a + b) = pow10 a * pow10 b"
  by (simp add: pow10_powi power_int_add)

lemma pow10_0 [simp]: "pow10 0 = 1"
  by (simp add: pow10_def)

lemma pow10_mono: "a \<le> b \<Longrightarrow> pow10 a \<le> pow10 b"
  by (simp add: pow10_powi power_int_increasing)

lemma pow10_strict_mono: "a < b \<Longrightarrow> pow10 a < pow10 b"
  by (simp add: pow10_powi power_int_strict_increasing)

lemma pow10_nat: "pow10 (int n) = 10 ^ n"
  by (simp add: pow10_def)

lemma pow10_1 [simp]: "pow10 1 = 10"
  by (simp add: pow10_def)

lemma pow10_Suc: "pow10 (k + 1) = 10 * pow10 k"
  by (simp add: pow10_add)

lemma pow10_minus: "pow10 (- k) = 1 / pow10 k"
  by (simp add: pow10_powi power_int_minus field_simps)

lemma pow10_diff: "pow10 (a - b) = pow10 a / pow10 b"
  using pow10_add [of a "- b"] by (simp add: pow10_minus)

lemma ndigits_pos: "0 < ndigits n"
  by (simp add: ndigits.simps [of n])

lemma ndigits_bounds: "0 < n \<Longrightarrow> 10 ^ (ndigits n - 1) \<le> n \<and> n < 10 ^ ndigits n"
proof (induction n rule: ndigits.induct)
  case (1 n)
  show ?case
  proof (cases "n < 10")
    case True
    with "1.prems" show ?thesis by (simp add: ndigits.simps [of n])
  next
    case False
    then have pos: "0 < n div 10" by simp
    from "1.IH" [OF False pos]
    have lo: "10 ^ (ndigits (n div 10) - 1) \<le> n div 10"
      and hi: "n div 10 < 10 ^ ndigits (n div 10)" by simp_all
    have eq: "ndigits n = Suc (ndigits (n div 10))"
      using False by (simp add: ndigits.simps [of n])
    have "10 * 10 ^ (ndigits (n div 10) - 1) \<le> 10 * (n div 10)"
      using lo by simp
    also have "\<dots> \<le> n" by simp
    finally have "10 * 10 ^ (ndigits (n div 10) - 1) \<le> n" .
    moreover have "(10::nat) * 10 ^ (ndigits (n div 10) - 1) = 10 ^ ndigits (n div 10)"
      using ndigits_pos [of "n div 10"] by (cases "ndigits (n div 10)") simp_all
    ultimately have l: "10 ^ (ndigits n - 1) \<le> n" by (simp add: eq)
    have "n div 10 + 1 \<le> 10 ^ ndigits (n div 10)" using hi by simp
    then have "10 * (n div 10 + 1) \<le> 10 * 10 ^ ndigits (n div 10)"
      by (rule mult_le_mono2)
    moreover have "n < 10 * (n div 10 + 1)" by simp
    ultimately have "n < 10 ^ ndigits n" by (simp add: eq)
    with l show ?thesis by simp
  qed
qed

lemma adjusted_bounds:
  assumes "x \<noteq> 0"
  shows "pow10 (adjusted x) \<le> \<bar>x\<bar> \<and> \<bar>x\<bar> < pow10 (adjusted x + 1)"
proof -
  obtain p q where pq: "quotient_of \<bar>x\<bar> = (p, q)" by (cases "quotient_of \<bar>x\<bar>")
  have q: "0 < q" using pq quotient_of_denom_pos by blast
  have xeq: "\<bar>x\<bar> = of_int p / of_int q" using pq by (rule quotient_of_div)
  have "0 < \<bar>x\<bar>" using assms by simp
  then have p: "0 < p" using q xeq by (simp add: zero_less_divide_iff)
  define dp where "dp = ndigits (nat p)"
  define dq where "dq = ndigits (nat q)"
  define d where "d = int dp - int dq"
  have bp: "10 ^ (dp - 1) \<le> nat p" "nat p < 10 ^ dp"
    using ndigits_bounds [of "nat p"] p by (simp_all add: dp_def)
  have bq: "10 ^ (dq - 1) \<le> nat q" "nat q < 10 ^ dq"
    using ndigits_bounds [of "nat q"] q by (simp_all add: dq_def)
  have dp1: "0 < dp" and dq1: "0 < dq" by (simp_all add: dp_def dq_def ndigits_pos)
  have rp: "(10::rat) ^ (dp - 1) \<le> of_int p" "of_int p < (10::rat) ^ dp"
  proof -
    have "rat_of_nat (10 ^ (dp - 1)) \<le> rat_of_nat (nat p)" using bp(1) by (simp only: of_nat_le_iff)
    then show "(10::rat) ^ (dp - 1) \<le> of_int p" using p by simp
    have "rat_of_nat (nat p) < rat_of_nat (10 ^ dp)" using bp(2) by (simp only: of_nat_less_iff)
    then show "of_int p < (10::rat) ^ dp" using p by simp
  qed
  have rq: "(10::rat) ^ (dq - 1) \<le> of_int q" "of_int q < (10::rat) ^ dq"
  proof -
    have "rat_of_nat (10 ^ (dq - 1)) \<le> rat_of_nat (nat q)" using bq(1) by (simp only: of_nat_le_iff)
    then show "(10::rat) ^ (dq - 1) \<le> of_int q" using q by simp
    have "rat_of_nat (nat q) < rat_of_nat (10 ^ dq)" using bq(2) by (simp only: of_nat_less_iff)
    then show "of_int q < (10::rat) ^ dq" using q by simp
  qed
  have P: "pow10 (int dp - 1) \<le> of_int p" "of_int p < pow10 (int dp)"
    using rp dp1 pow10_nat [of "dp - 1"] pow10_nat [of dp] by (simp_all add: of_nat_diff)
  have Q: "pow10 (int dq - 1) \<le> of_int q" "of_int q < pow10 (int dq)"
    using rq dq1 pow10_nat [of "dq - 1"] pow10_nat [of dq] by (simp_all add: of_nat_diff)
  have qr: "(0::rat) < of_int q" using q by simp
  have up: "\<bar>x\<bar> < pow10 (d + 1)"
  proof -
    have "of_int p < pow10 (int dp)" by (rule P)
    also have "pow10 (int dp) = pow10 (d + 1) * pow10 (int dq - 1)"
      by (simp add: d_def pow10_add [symmetric])
    also have "\<dots> \<le> pow10 (d + 1) * of_int q"
      using Q(1) by (simp add: mult_left_mono)
    finally show ?thesis using qr by (simp add: xeq pos_divide_less_eq)
  qed
  have lo: "pow10 (d - 1) < \<bar>x\<bar>"
  proof -
    have "pow10 (d - 1) * of_int q < pow10 (d - 1) * pow10 (int dq)"
      using Q(2) by (simp add: mult_strict_left_mono)
    also have "\<dots> = pow10 (int dp - 1)"
      by (simp add: d_def pow10_add [symmetric])
    also have "\<dots> \<le> of_int p" by (rule P)
    finally show ?thesis using qr by (simp add: xeq pos_less_divide_eq)
  qed
  have adj: "adjusted x = (if pow10 d \<le> \<bar>x\<bar> then d else d - 1)"
    by (simp add: adjusted_def pq d_def dp_def dq_def Let_def)
  show ?thesis
  proof (cases "pow10 d \<le> \<bar>x\<bar>")
    case True
    then show ?thesis using up adj by simp
  next
    case False
    then show ?thesis using lo adj by simp
  qed
qed

lemma adjusted_unique:
  assumes "pow10 e \<le> \<bar>x\<bar>" and "\<bar>x\<bar> < pow10 (e + 1)"
  shows "adjusted x = e"
proof -
  have "0 < \<bar>x\<bar>" using assms(1) pow10_pos [of e] by linarith
  then have nz: "x \<noteq> 0" by auto
  note b = adjusted_bounds [OF nz]
  have "\<not> adjusted x < e"
  proof
    assume "adjusted x < e"
    then have "pow10 (adjusted x + 1) \<le> pow10 e" by (intro pow10_mono) simp
    with b assms show False by linarith
  qed
  moreover have "\<not> e < adjusted x"
  proof
    assume "e < adjusted x"
    then have "pow10 (e + 1) \<le> pow10 (adjusted x)" by (intro pow10_mono) simp
    with b assms show False by linarith
  qed
  ultimately show ?thesis by linarith
qed

lemma round_half_even_of_int [simp]: "round_half_even (of_int c) = c"
  by (simp add: round_half_even_def)

lemma round_half_even_error: "\<bar>x - of_int (round_half_even x)\<bar> \<le> 1 / 2"
proof -
  have "of_int \<lfloor>x\<rfloor> \<le> x" "x < of_int \<lfloor>x\<rfloor> + 1" by linarith+
  then show ?thesis
    by (auto simp: round_half_even_def Let_def abs_le_iff)
qed

lemma round_half_even_nearest:
  assumes "\<bar>x - of_int c\<bar> < 1 / 2"
  shows "round_half_even x = c"
proof -
  have "\<bar>of_int (round_half_even x) - (of_int c :: rat)\<bar> < 1"
    using assms round_half_even_error [of x] by linarith
  then have "\<bar>(of_int (round_half_even x - c) :: rat)\<bar> < 1" by simp
  then have "\<bar>round_half_even x - c\<bar> < 1"
    by (metis of_int_abs of_int_less_1_iff)
  then show ?thesis by linarith
qed

lemma round_half_even_minus: "round_half_even (- x) = - round_half_even x"
proof (cases "x = of_int \<lfloor>x\<rfloor>")
  case True
  then obtain c where "x = of_int c" ..
  then show ?thesis by (simp flip: of_int_minus)
next
  case False
  then have fl: "\<lfloor>- x\<rfloor> = - \<lfloor>x\<rfloor> - 1"
    by (metis ceiling_altdef ceiling_def add_diff_cancel_right' diff_minus_eq_add minus_diff_eq uminus_add_conv_diff)
  have b: "of_int \<lfloor>x\<rfloor> < x" "x < of_int \<lfloor>x\<rfloor> + 1"
    using False by (linarith, linarith)
  show ?thesis
    using b by (auto simp: round_half_even_def Let_def fl)
qed

lemma adjusted_minus [simp]: "adjusted (- x) = adjusted x"
  by (simp add: adjusted_def)

lemma context_round_0 [simp]: "context_round 0 = 0"
  by (simp add: context_round_def)

lemma context_round_minus: "context_round (- x) = - context_round x"
  by (simp add: context_round_def Let_def round_half_even_minus)

lemma context_round_scaled:
  assumes "x \<noteq> 0"
  defines "q \<equiv> pow10 (adjusted x - 27)"
  shows "context_round x = of_int (round_half_even (x / q)) * q"
    and "10 ^ 27 \<le> \<bar>x / q\<bar>" and "\<bar>x / q\<bar> < 10 ^ 28"
proof -
  show "context_round x = of_int (round_half_even (x / q)) * q"
    using assms by (simp add: context_round_def prec_def Let_def)
  have q: "0 < q" by (simp add: q_def)
  note b = adjusted_bounds [OF assms(1)]
  have e: "pow10 (adjusted x) = 10 ^ 27 * q"
    using pow10_add [of 27 "adjusted x - 27"] pow10_nat [of 27] by (simp add: q_def)
  have e1: "pow10 (adjusted x + 1) = 10 ^ 28 * q"
    using pow10_add [of 28 "adjusted x - 27"] pow10_nat [of 28] by (simp add: q_def add.commute)
  have ax: "\<bar>x / q\<bar> = \<bar>x\<bar> / q" using q by simp
  show "10 ^ 27 \<le> \<bar>x / q\<bar>"
    using b e q by (simp add: ax pos_le_divide_eq)
  show "\<bar>x / q\<bar> < 10 ^ 28"
    using b e1 q by (simp add: ax pos_divide_less_eq)
qed

lemma context_round_exact:
  assumes "\<bar>c\<bar> < 10 ^ 28"
  shows "context_round (of_int c * pow10 s) = of_int c * pow10 s"
proof (cases "c = 0")
  case True
  then show ?thesis by simp
next
  case False
  define x where "x = rat_of_int c * pow10 s"
  have nz: "x \<noteq> 0" using False pow10_pos [of s] by (simp add: x_def)
  define q where "q = pow10 (adjusted x - 27)"
  note r = context_round_scaled [OF nz, folded q_def]
  have "\<bar>x\<bar> = rat_of_int \<bar>c\<bar> * pow10 s"
    by (simp add: x_def abs_mult)
  also have "\<dots> < 10 ^ 28 * pow10 s"
  proof -
    have "rat_of_int \<bar>c\<bar> < rat_of_int (10 ^ 28)" using assms by (simp only: of_int_less_iff)
    then show ?thesis by (simp add: mult_strict_right_mono)
  qed
  also have "\<dots> = pow10 (s + 28)"
    using pow10_add [of 28 s] pow10_nat [of 28] by (simp add: add.commute)
  finally have "pow10 (adjusted x) < pow10 (s + 28)"
    using adjusted_bounds [OF nz] by linarith
  then have "adjusted x < s + 28"
    using pow10_mono [of "s + 28" "adjusted x"] by (cases "adjusted x < s + 28") auto
  then have "0 \<le> s - (adjusted x - 27)" by linarith
  then obtain n where n: "s - (adjusted x - 27) = int n"
    by (rule nonneg_int_cases)
  have "s = int n + (adjusted x - 27)" using n by linarith
  then have "pow10 s = pow10 (int n) * q"
    unfolding q_def by (subst pow10_add [symmetric]) simp
  then have xq: "x = of_int (c * 10 ^ n) * q"
    by (simp add: x_def pow10_nat)
  moreover have "q \<noteq> 0" by (simp add: q_def)
  ultimately have "x / q = of_int (c * 10 ^ n)"
    by simp
  then have "round_half_even (x / q) = c * 10 ^ n"
    by (simp only: round_half_even_of_int)
  then have "context_round x = of_int (c * 10 ^ n) * q"
    using r(1) by simp
  also have "\<dots> = x"
    using xq by simp
  finally show ?thesis by (simp add: x_def)
qed

lemma representable_fixed: "representable x \<Longrightarrow> context_round x = x"
  using context_round_exact by (auto simp: representable_def)

lemma round_half_even_ge: "of_int k \<le> x \<Longrightarrow> k \<le> round_half_even x"
proof -
  assume "of_int k \<le> x"
  then have "k \<le> \<lfloor>x\<rfloor>" by (simp add: le_floor_iff)
  then show ?thesis by (auto simp: round_half_even_def Let_def)
qed

lemma round_half_even_le: "x \<le> of_int k \<Longrightarrow> round_half_even x \<le> k"
  using round_half_even_ge [of "- k" "- x"] by (simp add: round_half_even_minus)

lemma round_half_even_mono: "x \<le> y \<Longrightarrow> round_half_even x \<le> round_half_even y"
proof -
  assume xy: "x \<le> y"
  show ?thesis
  proof (cases "\<lfloor>x\<rfloor> = \<lfloor>y\<rfloor>")
    case True
    then show ?thesis using xy by (auto simp: round_half_even_def Let_def)
  next
    case False
    then have "\<lfloor>x\<rfloor> + 1 \<le> \<lfloor>y\<rfloor>" using floor_mono [OF xy] by linarith
    moreover have "round_half_even x \<le> \<lfloor>x\<rfloor> + 1" by (auto simp: round_half_even_def Let_def)
    moreover have "\<lfloor>y\<rfloor> \<le> round_half_even y" by (auto simp: round_half_even_def Let_def)
    ultimately show ?thesis by linarith
  qed
qed

lemma context_round_pos:
  assumes "0 < x"
  shows "0 < context_round x"
proof -
  have nz: "x \<noteq> 0" using assms by simp
  define q where "q = pow10 (adjusted x - 27)"
  note r = context_round_scaled [OF nz, folded q_def]
  have q: "0 < q" by (simp add: q_def)
  have "0 < x / q" using assms q by simp
  then have "rat_of_int (10 ^ 27) \<le> x / q" using r(2) by simp
  then have "10 ^ 27 \<le> round_half_even (x / q)" by (rule round_half_even_ge)
  moreover have "(0::int) < 10 ^ 27" by simp
  ultimately have "0 < round_half_even (x / q)" by (rule less_le_trans [rotated])
  then show ?thesis using q by (simp add: r(1))
qed

lemma context_round_neg: "x < 0 \<Longrightarrow> context_round x < 0"
  using context_round_pos [of "- x"] by (simp add: context_round_minus)

lemma context_round_sign:
  "0 < context_round x \<longleftrightarrow> 0 < x"
  "context_round x < 0 \<longleftrightarrow> x < 0"
  "context_round x = 0 \<longleftrightarrow> x = 0"
  "0 \<le> context_round x \<longleftrightarrow> 0 \<le> x"
  "context_round x \<le> 0 \<longleftrightarrow> x \<le> 0"
proof -
  consider "x < 0" | "x = 0" | "0 < x" by linarith
  then have "(0 < context_round x \<longleftrightarrow> 0 < x) \<and> (context_round x < 0 \<longleftrightarrow> x < 0)
      \<and> (context_round x = 0 \<longleftrightarrow> x = 0) \<and> (0 \<le> context_round x \<longleftrightarrow> 0 \<le> x)
      \<and> (context_round x \<le> 0 \<longleftrightarrow> x \<le> 0)"
  proof cases
    case 1
    moreover from 1 have "context_round x < 0" by (rule context_round_neg)
    ultimately show ?thesis by linarith
  next
    case 2
    then show ?thesis by simp
  next
    case 3
    moreover from 3 have "0 < context_round x" by (rule context_round_pos)
    ultimately show ?thesis by linarith
  qed
  then show "0 < context_round x \<longleftrightarrow> 0 < x"
    "context_round x < 0 \<longleftrightarrow> x < 0"
    "context_round x = 0 \<longleftrightarrow> x = 0"
    "0 \<le> context_round x \<longleftrightarrow> 0 \<le> x"
    "context_round x \<le> 0 \<longleftrightarrow> x \<le> 0" by blast+
qed

declare context_round_sign [simp]

lemma context_round_abs: "context_round \<bar>x\<bar> = \<bar>context_round x\<bar>"
  by (cases "0 \<le> x") (simp_all add: abs_if context_round_minus not_le)

lemma context_round_error:
  "\<bar>context_round x - x\<bar> * (2 * 10 ^ 27) \<le> \<bar>x\<bar>"
proof (cases "x = 0")
  case True
  then show ?thesis by simp
next
  case False
  define q where "q = pow10 (adjusted x - 27)"
  note r = context_round_scaled [OF False, folded q_def]
  have q: "0 < q" by (simp add: q_def)
  define c where "c = round_half_even (x / q)"
  have "\<bar>x / q - of_int c\<bar> \<le> 1 / 2"
    unfolding c_def by (rule round_half_even_error)
  then have "\<bar>x / q - of_int c\<bar> * q \<le> 1 / 2 * q"
    using q by (simp add: mult_right_mono)
  moreover have "\<bar>x / q - of_int c\<bar> * q = \<bar>x - of_int c * q\<bar>"
  proof -
    have "\<bar>x / q - of_int c\<bar> * q = \<bar>(x / q - of_int c) * q\<bar>"
      using q by (simp add: abs_mult)
    also have "(x / q - of_int c) * q = x - of_int c * q"
      using q by (simp add: field_simps)
    finally show ?thesis .
  qed
  ultimately have e: "\<bar>x - context_round x\<bar> \<le> q / 2"
    by (simp add: r(1) c_def)
  have "10 ^ 27 * q \<le> \<bar>x\<bar>"
    using r(2) q by (simp add: pos_le_divide_eq abs_mult)
  then have "q / 2 * (2 * 10 ^ 27) \<le> \<bar>x\<bar>" by simp
  moreover have "\<bar>x - context_round x\<bar> * (2 * 10 ^ 27) \<le> q / 2 * (2 * 10 ^ 27)"
    using e by (intro mult_right_mono) simp_all
  ultimately show ?thesis by (simp add: abs_minus_commute)
qed

lemma representable_0 [simp]: "representable 0"
  unfolding representable_def by (rule exI [of _ 0], rule exI [of _ 0]) simp

lemma representable_minus [simp]: "representable (- x) \<longleftrightarrow> representable x"
proof -
  have "representable (- y)" if "representable y" for y
  proof -
    from that obtain c s where "\<bar>c\<bar> < 10 ^ 28" "y = of_int c * pow10 s"
      by (auto simp: representable_def)
    then have "\<bar>- c\<bar> < 10 ^ 28 \<and> - y = of_int (- c) * pow10 s" by simp
    then show ?thesis unfolding representable_def by blast
  qed
  from this [of x] this [of "- x"] show ?thesis by auto
qed

lemma representable_abs: "representable x \<Longrightarrow> representable \<bar>x\<bar>"
  by (simp add: abs_if)

lemma representable_context_round [simp]: "representable (context_round x)"
proof (cases "x = 0")
  case True
  then show ?thesis by simp
next
  case False
  define q where "q = pow10 (adjusted x - 27)"
  note r = context_round_scaled [OF False, folded q_def]
  define c where "c = round_half_even (x / q)"
  have "x / q < 10 ^ 28 \<and> - (x / q) < 10 ^ 28"
    using r(3) by (simp only: abs_less_iff)
  then have b: "x / q \<le> rat_of_int (10 ^ 28)" "rat_of_int (- (10 ^ 28)) \<le> x / q"
    by simp_all
  have c1: "c \<le> 10 ^ 28"
    unfolding c_def using b(1) by (rule round_half_even_le)
  have c2: "- (10 ^ 28) \<le> c"
    unfolding c_def using b(2) by (rule round_half_even_ge)
  note c = c1 c2
  have cr: "context_round x = of_int c * q" by (simp add: r(1) c_def)
  consider "\<bar>c\<bar> < 10 ^ 28" | "c = 10 ^ 28" | "c = - (10 ^ 28)" using c by linarith
  then show ?thesis
  proof cases
    case 1
    then show ?thesis unfolding representable_def cr q_def by blast
  next
    case 2
    have "rat_of_int c * q = of_int (10 ^ 27) * pow10 (adjusted x - 27 + 1)"
      using pow10_Suc [of "adjusted x - 27"] by (simp add: 2 q_def)
    moreover have "\<bar>10 ^ 27 :: int\<bar> < 10 ^ 28" by simp
    ultimately show ?thesis unfolding representable_def cr by blast
  next
    case 3
    have "rat_of_int c * q = of_int (- (10 ^ 27)) * pow10 (adjusted x - 27 + 1)"
      using pow10_Suc [of "adjusted x - 27"] by (simp add: 3 q_def)
    moreover have "\<bar>- (10 ^ 27) :: int\<bar> < 10 ^ 28" by simp
    ultimately show ?thesis unfolding representable_def cr by blast
  qed
qed

lemma context_round_idem [simp]: "context_round (context_round x) = context_round x"
  by (rule representable_fixed) simp

lemma context_round_nearest:
  assumes "pow10 (s + 27) \<le> \<bar>x\<bar>" and "\<bar>x\<bar> < pow10 (s + 28)"
    and "\<bar>x - of_int c * pow10 s\<bar> < pow10 s / 2"
  shows "context_round x = of_int c * pow10 s"
proof -
  have "0 < \<bar>x\<bar>" using assms(1) pow10_pos [of "s + 27"] by linarith
  then have nz: "x \<noteq> 0" by auto
  have "adjusted x = s + 27"
    using assms(1,2) by (intro adjusted_unique) (simp_all add: add.assoc)
  then have q: "pow10 (adjusted x - 27) = pow10 s" by simp
  note r = context_round_scaled [OF nz, unfolded q]
  have "\<bar>x / pow10 s - of_int c\<bar> = \<bar>x - of_int c * pow10 s\<bar> / pow10 s"
  proof -
    have "x / pow10 s - of_int c = (x - of_int c * pow10 s) / pow10 s"
      by (simp add: field_simps)
    then show ?thesis by (simp add: abs_divide)
  qed
  also have "\<dots> < 1 / 2"
    using assms(3) by (simp add: pos_divide_less_eq)
  finally have "round_half_even (x / pow10 s) = c" by (rule round_half_even_nearest)
  then show ?thesis by (simp add: r(1))
qed

lemma context_round_of_int: "\<bar>c\<bar> < 10 ^ 28 \<Longrightarrow> context_round (of_int c) = of_int c"
  using context_round_exact [of c 0] by simp

lemma context_round_numeral [simp]:
  "numeral k < (10::int) ^ 28 \<Longrightarrow> context_round (numeral k) = numeral k"
  using context_round_of_int [of "numeral k"] by simp

text \<open>Rounding is monotone.\<close>

lemma adjusted_mono:
  assumes "0 < x" and "x \<le> y"
  shows "adjusted x \<le> adjusted y"
proof (rule ccontr)
  assume "\<not> adjusted x \<le> adjusted y"
  then have "adjusted y + 1 \<le> adjusted x" by simp
  then have "pow10 (adjusted y + 1) \<le> pow10 (adjusted x)" by (rule pow10_mono)
  moreover have "pow10 (adjusted x) \<le> \<bar>x\<bar>" using adjusted_bounds [of x] assms by simp
  moreover have "\<bar>y\<bar> < pow10 (adjusted y + 1)" using adjusted_bounds [of y] assms by simp
  ultimately show False using assms by simp
qed

lemma context_round_bounds_pos:
  assumes "0 < x"
  shows "pow10 (adjusted x) \<le> context_round x" and "context_round x \<le> pow10 (adjusted x + 1)"
proof -
  have nz: "x \<noteq> 0" using assms by simp
  define q where "q = pow10 (adjusted x - 27)"
  note r = context_round_scaled [OF nz, folded q_def]
  have q: "0 < q" by (simp add: q_def)
  have pos: "0 < x / q" using assms q by simp
  have e: "pow10 (adjusted x) = 10 ^ 27 * q"
    using pow10_add [of 27 "adjusted x - 27"] pow10_nat [of 27] by (simp add: q_def)
  have e1: "pow10 (adjusted x + 1) = 10 ^ 28 * q"
    using pow10_add [of 28 "adjusted x - 27"] pow10_nat [of 28] by (simp add: q_def add.commute)
  have ax: "\<bar>x / q\<bar> = x / q" using pos by (simp only: abs_of_pos)
  have "rat_of_int (10 ^ 27) \<le> x / q" using r(2) by (simp only: ax) simp
  then have "10 ^ 27 \<le> round_half_even (x / q)" by (rule round_half_even_ge)
  then have "rat_of_int (10 ^ 27) \<le> rat_of_int (round_half_even (x / q))"
    by (simp only: of_int_le_iff)
  then have "10 ^ 27 * q \<le> rat_of_int (round_half_even (x / q)) * q"
    using q by (simp add: mult_right_mono)
  then show "pow10 (adjusted x) \<le> context_round x" by (simp add: e r(1))
  have "x / q < 10 ^ 28" using r(3) by (simp only: ax)
  then have "x / q \<le> rat_of_int (10 ^ 28)" by simp
  then have "round_half_even (x / q) \<le> 10 ^ 28" by (rule round_half_even_le)
  then have "rat_of_int (round_half_even (x / q)) \<le> rat_of_int (10 ^ 28)"
    by (simp only: of_int_le_iff)
  then have "rat_of_int (round_half_even (x / q)) * q \<le> 10 ^ 28 * q"
    using q by (simp add: mult_right_mono)
  then show "context_round x \<le> pow10 (adjusted x + 1)" by (simp add: e1 r(1))
qed

lemma context_round_mono_pos:
  assumes "0 < x" and "x \<le> y"
  shows "context_round x \<le> context_round y"
proof -
  have y: "0 < y" using assms by simp
  have nzx: "x \<noteq> 0" and nzy: "y \<noteq> 0" using assms by simp_all
  from adjusted_mono [OF assms] consider "adjusted x = adjusted y" | "adjusted x + 1 \<le> adjusted y"
    by linarith
  then show ?thesis
  proof cases
    case 1
    define q where "q = pow10 (adjusted x - 27)"
    have q: "0 < q" by (simp add: q_def)
    have "x / q \<le> y / q" using assms(2) q by (simp add: divide_right_mono)
    then have "round_half_even (x / q) \<le> round_half_even (y / q)" by (rule round_half_even_mono)
    then have "rat_of_int (round_half_even (x / q)) * q \<le> rat_of_int (round_half_even (y / q)) * q"
      using q by (simp add: mult_right_mono)
    then show ?thesis
      using context_round_scaled(1) [OF nzx] context_round_scaled(1) [OF nzy]
      by (simp add: q_def 1)
  next
    case 2
    have "context_round x \<le> pow10 (adjusted x + 1)"
      using assms(1) by (rule context_round_bounds_pos)
    also have "\<dots> \<le> pow10 (adjusted y)" using 2 by (rule pow10_mono)
    also have "\<dots> \<le> context_round y" using y by (rule context_round_bounds_pos)
    finally show ?thesis .
  qed
qed

lemma context_round_mono:
  assumes "x \<le> y"
  shows "context_round x \<le> context_round y"
proof -
  consider "0 < x" | "x \<le> 0" "0 \<le> y" | "y < 0" by linarith
  then show ?thesis
  proof cases
    case 1
    then show ?thesis using assms by (rule context_round_mono_pos)
  next
    case 2
    then have "context_round x \<le> 0" "0 \<le> context_round y" by simp_all
    then show ?thesis by linarith
  next
    case 3
    then have "0 < - y" "- y \<le> - x" using assms by simp_all
    then have "context_round (- y) \<le> context_round (- x)" by (rule context_round_mono_pos)
    then show ?thesis by (simp add: context_round_minus)
  qed
qed

section \<open>Errors and Python arithmetic\<close>

text \<open>
  Every exception the modelled code can raise is a value. The first four are the
  \<^verbatim>\<open>ValueError\<close>s of \<^verbatim>\<open>main.py\<close>, told apart by their message, whose
  interpolated values they carry:
  \<^item> \<open>UserDoesNotExist id\<close>: \<^verbatim>\<open>"User {id} does not exist"\<close>
    (\<^verbatim>\<open>add_transaction\<close>, \<^verbatim>\<open>ExpenseManager.get_user_balance\<close>);
  \<^item> \<open>PaymentNotPositive id\<close>: \<^verbatim>\<open>"Payment amount must be positive for user {id}"\<close>;
  \<^item> \<open>PercentageSum p\<close>: \<^verbatim>\<open>"Percentage split must sum to 100%, got {p}%"\<close>;
  \<^item> \<open>ExactSum total s\<close>: \<^verbatim>\<open>"Exact split amounts must sum to {total}, got {s}"\<close>.
  The others are the built-in exceptions of the operators the code uses.
\<close>

datatype error =
    UserDoesNotExist string
  | PaymentNotPositive string
  | PercentageSum decimal
  | ExactSum decimal decimal
  | TypeError
  | ZeroDivisionError
  | DivisionByZero
  | InvalidOperation
  | KeyError string

text \<open>
  The Decimal operators: the exact result, rounded to the context. Division raises
  \<^verbatim>\<open>DivisionByZero\<close> on a zero divisor (\<^verbatim>\<open>InvalidOperation\<close> for \<open>0/0\<close>).
\<close>

definition decimal_add :: "decimal \<Rightarrow> decimal \<Rightarrow> decimal" where
  "decimal_add a b = context_round (a + b)"

definition decimal_sub :: "decimal \<Rightarrow> decimal \<Rightarrow> decimal" where
  "decimal_sub a b = context_round (a - b)"

definition decimal_mul :: "decimal \<Rightarrow> decimal \<Rightarrow> decimal" where
  "decimal_mul a b = context_round (a * b)"

definition decimal_truediv :: "decimal \<Rightarrow> decimal \<Rightarrow> error + decimal" where
  "decimal_truediv a b =
     (if b = 0 then Inl (if a = 0 then InvalidOperation else DivisionByZero)
      else Inr (context_round (a / b)))"

definition decimal_abs :: "decimal \<Rightarrow> decimal" where
  "decimal_abs a = context_round \<bar>a\<bar>"

definition decimal_neg :: "decimal \<Rightarrow> decimal" where
  "decimal_neg a = context_round (- a)"

text \<open>
  \<^verbatim>\<open>Decimal('0.01')\<close>, the threshold of every comparison of a balance with zero.
\<close>

definition epsilon :: decimal where
  "epsilon = 1 / 100"

text \<open>
  \<^verbatim>\<open>sum(xs)\<close> starts from the int \<open>0\<close> and adds from the left; adding a Decimal
  to an int converts the int exactly and rounds the result.
\<close>

definition py_sum :: "decimal list \<Rightarrow> decimal" where
  "py_sum xs = foldl decimal_add 0 xs"

section \<open>Users and transactions\<close>

record user =
  user_id :: string
  name :: string
  email :: string

datatype split_type = EQUAL | PERCENTAGE | EXACT

text \<open>
  \<^verbatim>\<open>class Transaction\<close>. The dictionaries \<^verbatim>\<open>payers\<close> and \<^verbatim>\<open>split_details\<close>
  are association lists in insertion order (the order \<^verbatim>\<open>sum\<close> and the validation loop
  iterate in); a Python dict has no repeated key, so the lists that model one have
  distinct keys. \<^verbatim>\<open>date\<close> is a timestamp.
\<close>

record transaction =
  transaction_id :: string
  description :: string
  date :: nat
  payers :: "(string \<times> decimal) list"
  participants :: "string list"
  split_type :: split_type
  split_details :: "(string \<times> decimal) list"

text \<open>
  \<^verbatim>\<open>self.total_amount = sum(payers.values())\<close> is computed once by the constructor
  from \<^verbatim>\<open>payers\<close>, which is never reassigned: it is a function of the record. Its
  value is given here; it is the int \<open>0\<close> when there is no payer and a Decimal
  otherwise, which matters to the division in \<open>get_user_share\<close> only.
\<close>

definition total_amount :: "transaction \<Rightarrow> decimal" where
  "total_amount t = py_sum (map snd (payers t))"

text \<open>
  \<^verbatim>\<open>Transaction._validate\<close> (lines 66-82): \<open>None\<close> when it returns, \<open>Some e\<close> when
  it raises. The payments are checked in dictionary order; the two split checks run only
  for a non-empty \<^verbatim>\<open>split_details\<close>.
\<close>

definition validate :: "transaction \<Rightarrow> error option" where
  "validate t =
     (case find (\<lambda>(uid, amount). amount \<le> 0) (payers t) of
        Some (uid, amount) \<Rightarrow> Some (PaymentNotPositive uid)
      | None \<Rightarrow>
          (let total_percentage = py_sum (map snd (split_details t)) in
           if split_type t = PERCENTAGE \<and> split_details t \<noteq> [] \<and>
              decimal_abs (decimal_sub total_percentage 100) > epsilon
           then Some (PercentageSum total_percentage)
           else
             (let total_split = py_sum (map snd (split_details t)) in
              if split_type t = EXACT \<and> split_details t \<noteq> [] \<and>
                 decimal_abs (decimal_sub total_split (total_amount t)) > epsilon
              then Some (ExactSum (total_amount t) total_split)
              else None)))"

text \<open>
  \<^verbatim>\<open>Transaction.__init__\<close> (lines 43-64): \<^verbatim>\<open>split_details or {}\<close> turns an absent
  mapping into the empty one, then the new object is validated.
\<close>

definition Transaction_init :: "string \<Rightarrow> string \<Rightarrow> nat \<Rightarrow> (string \<times> decimal) list \<Rightarrow> string list \<Rightarrow>
    split_type \<Rightarrow> (string \<times> decimal) list option \<Rightarrow> error + transaction" where
  "Transaction_init tid descr dt pays parts st details =
     (let t = \<lparr>transaction_id = tid, description = descr, date = dt, payers = pays,
                participants = parts, split_type = st,
                split_details = (case details of None \<Rightarrow> [] | Some d \<Rightarrow> d)\<rparr>
      in case validate t of Some e \<Rightarrow> Inl e | None \<Rightarrow> Inr t)"

text \<open>
  The result of \<open>get_user_share\<close> is a Decimal, except that for a transaction without
  payers \<^verbatim>\<open>total_amount\<close> is the int \<open>0\<close> and \<^verbatim>\<open>0 / len(participants)\<close> is the
  float \<open>0.0\<close>.
\<close>

datatype number = PyDecimal decimal | PyFloat rat

text \<open>
  \<^verbatim>\<open>Transaction.get_user_share\<close> (lines 84-100).
\<close>

definition get_user_share :: "transaction \<Rightarrow> string \<Rightarrow> error + number" where
  "get_user_share t uid =
     (if uid \<notin> set (participants t) then Inr (PyDecimal 0)
      else case split_type t of
        EQUAL \<Rightarrow>
          (if payers t = []
           then (if length (participants t) = 0 then Inl ZeroDivisionError else Inr (PyFloat 0))
           else map_sum id PyDecimal
                  (decimal_truediv (total_amount t) (of_nat (length (participants t)))))
      | PERCENTAGE \<Rightarrow>
          (case map_of (split_details t) uid of
             None \<Rightarrow> Inr (PyDecimal 0)
           | Some d \<Rightarrow>
               (case decimal_truediv d 100 of
                  Inl e \<Rightarrow> Inl e
                | Inr p \<Rightarrow> Inr (PyDecimal (decimal_mul p (total_amount t)))))
      | EXACT \<Rightarrow>
          (case map_of (split_details t) uid of
             None \<Rightarrow> Inr (PyDecimal 0)
           | Some d \<Rightarrow> Inr (PyDecimal d)))"

text \<open>
  \<^verbatim>\<open>Transaction.get_user_payment\<close> (lines 102-104): \<^verbatim>\<open>payers.get(user_id, Decimal('0'))\<close>.
\<close>

definition get_user_payment :: "transaction \<Rightarrow> string \<Rightarrow> decimal" where
  "get_user_payment t uid =
     (case map_of (payers t) uid of None \<Rightarrow> 0 | Some amount \<Rightarrow> amount)"

text \<open>
  \<^verbatim>\<open>Transaction.get_user_balance\<close> (lines 106-110): \<^verbatim>\<open>paid - owed\<close>. Subtracting
  a float from a Decimal raises \<^verbatim>\<open>TypeError\<close>.
\<close>

definition get_user_balance :: "transaction \<Rightarrow> string \<Rightarrow> error + decimal" where
  "get_user_balance t uid =
     (let paid = get_user_payment t uid in
      case get_user_share t uid of
        Inl e \<Rightarrow> Inl e
      | Inr (PyDecimal owed) \<Rightarrow> Inr (decimal_sub paid owed)
      | Inr (PyFloat owed) \<Rightarrow> Inl TypeError)"


section \<open>The ledger\<close>

text \<open>
  \<^verbatim>\<open>class ExpenseManager\<close>. \<^verbatim>\<open>users\<close> and \<^verbatim>\<open>transactions\<close> are dictionaries in
  insertion order (the loops iterate over them); the index and the balance matrix are
  looked up by key only, so they are maps.
\<close>

type_synonym matrix = "string \<rightharpoonup> (string \<rightharpoonup> decimal)"

record expense_manager =
  users :: "(string \<times> user) list"
  transactions :: "(string \<times> transaction) list"
  user_transactions :: "string \<rightharpoonup> string set"
  balance_cache :: matrix
  cache_valid :: bool

text \<open>
  \<^verbatim>\<open>d[k] = v\<close> on a dictionary in insertion order: an existing key keeps its place.
\<close>

fun dict_set :: "('k \<times> 'v) list \<Rightarrow> 'k \<Rightarrow> 'v \<Rightarrow> ('k \<times> 'v) list" where
  "dict_set [] k v = [(k, v)]"
| "dict_set ((k', v') # kvs) k v =
     (if k' = k then (k, v) # kvs else (k', v') # dict_set kvs k v)"

definition ExpenseManager_init :: expense_manager where
  "ExpenseManager_init =
     \<lparr>users = [], transactions = [], user_transactions = Map.empty,
      balance_cache = Map.empty, cache_valid = False\<rparr>"

definition user_ids :: "expense_manager \<Rightarrow> string list" where
  "user_ids m = map fst (users m)"

text \<open>
  \<^verbatim>\<open>add_user\<close> (lines 157-166). The fresh \<^verbatim>\<open>uuid4\<close> is the parameter \<open>uid\<close>.
\<close>

definition add_user :: "expense_manager \<Rightarrow> string \<Rightarrow> string \<Rightarrow> string \<Rightarrow> user \<times> expense_manager" where
  "add_user m uid nm em =
     (let u = \<lparr>user_id = uid, name = nm, email = em\<rparr>
      in (u, m\<lparr>users := dict_set (users m) uid u,
                user_transactions := (user_transactions m)(uid \<mapsto> {}),
                cache_valid := False\<rparr>))"

text \<open>
  The index update of \<^verbatim>\<open>add_transaction\<close> (lines 201-205): every id of
  \<^verbatim>\<open>set(payers) | set(participants)\<close> gets the transaction id added to its set, or a
  new singleton set.
\<close>

definition index_transaction ::
  "(string \<rightharpoonup> string set) \<Rightarrow> string set \<Rightarrow> string \<Rightarrow> (string \<rightharpoonup> string set)" where
  "index_transaction ut ids tid =
     (\<lambda>u. if u \<in> ids
          then Some (case ut u of Some tids \<Rightarrow> insert tid tids | None \<Rightarrow> {tid})
          else ut u)"

text \<open>
  \<^verbatim>\<open>add_transaction\<close> (lines 175-210), returning the result or the exception together
  with the ledger it leaves behind. The fresh \<^verbatim>\<open>uuid4\<close> and \<^verbatim>\<open>datetime.now()\<close> are
  the parameters \<open>tid\<close> and \<open>now\<close>.
\<close>

definition add_transaction ::
  "expense_manager \<Rightarrow> string \<Rightarrow> nat \<Rightarrow> string \<Rightarrow> (string \<times> decimal) list \<Rightarrow> string list \<Rightarrow>
     split_type \<Rightarrow> (string \<times> decimal) list option \<Rightarrow> (error + transaction) \<times> expense_manager" where
  "add_transaction m tid now descr pays parts st details =
     (case find (\<lambda>u. u \<notin> set (user_ids m)) (map fst pays @ parts) of
        Some u \<Rightarrow> (Inl (UserDoesNotExist u), m)
      | None \<Rightarrow>
          (case Transaction_init tid descr now pays parts st details of
             Inl e \<Rightarrow> (Inl e, m)
           | Inr t \<Rightarrow>
               (Inr t,
                m\<lparr>transactions := dict_set (transactions m) tid t,
                  user_transactions :=
                    index_transaction (user_transactions m) (set (map fst pays) \<union> set parts) tid,
                  cache_valid := False\<rparr>)))"

subsection \<open>The pairwise balance matrix\<close>

text \<open>
  \<^verbatim>\<open>_calculate_balances\<close> (lines 223-252), one definition per loop, innermost first.
  \<open>total_positive\<close> is the generator sum of lines 242-246.
\<close>

fun sum_positive :: "transaction \<Rightarrow> string list \<Rightarrow> decimal \<Rightarrow> error + decimal" where
  "sum_positive t [] acc = Inr acc"
| "sum_positive t (uid # uids) acc =
     (case get_user_balance t uid of
        Inl e \<Rightarrow> Inl e
      | Inr b \<Rightarrow> sum_positive t uids (decimal_add acc (max b 0)))"

definition total_positive :: "transaction \<Rightarrow> string \<Rightarrow> error + decimal" where
  "total_positive t other_id =
     sum_positive t (filter (\<lambda>uid. uid \<noteq> other_id) (participants t)) 0"

text \<open>
  \<^verbatim>\<open>balances[other_id][user_id] += share\<close> (line 250).
\<close>

definition matrix_add :: "matrix \<Rightarrow> string \<Rightarrow> string \<Rightarrow> decimal \<Rightarrow> error + matrix" where
  "matrix_add balances other_id uid share =
     (case balances other_id of
        None \<Rightarrow> Inl (KeyError other_id)
      | Some row \<Rightarrow>
          (case row uid of
             None \<Rightarrow> Inl (KeyError uid)
           | Some v \<Rightarrow> Inr (balances(other_id \<mapsto> row(uid \<mapsto> decimal_add v share)))))"

text \<open>
  The body of the loop over \<^verbatim>\<open>other_id\<close> (lines 237-250).
\<close>

definition allocate ::
  "transaction \<Rightarrow> string \<Rightarrow> decimal \<Rightarrow> string \<Rightarrow> matrix \<Rightarrow> error + matrix" where
  "allocate t uid user_balance other_id balances =
     (if other_id \<noteq> uid then
        (case get_user_balance t other_id of
           Inl e \<Rightarrow> Inl e
         | Inr other_balance \<Rightarrow>
             if other_balance < 0 \<and> user_balance > 0 then
               (case total_positive t other_id of
                  Inl e \<Rightarrow> Inl e
                | Inr tp \<Rightarrow>
                    if tp > 0 then
                      (case decimal_truediv user_balance tp of
                         Inl e \<Rightarrow> Inl e
                       | Inr r \<Rightarrow>
                           matrix_add balances other_id uid
                             (decimal_mul r (decimal_abs other_balance)))
                    else Inr balances)
             else Inr balances)
      else Inr balances)"

text \<open>
  A \<^verbatim>\<open>for\<close> loop whose body may raise: the first exception ends it.
\<close>

fun foldM :: "('a \<Rightarrow> 's \<Rightarrow> error + 's) \<Rightarrow> 'a list \<Rightarrow> 's \<Rightarrow> error + 's" where
  "foldM f [] s = Inr s"
| "foldM f (x # xs) s = (case f x s of Inl e \<Rightarrow> Inl e | Inr s' \<Rightarrow> foldM f xs s')"

text \<open>
  The body of the loop over \<^verbatim>\<open>user_id\<close> (lines 232-250) and of the loop over the
  transactions (lines 231-250).
\<close>

definition process_user ::
  "string list \<Rightarrow> transaction \<Rightarrow> string \<Rightarrow> matrix \<Rightarrow> error + matrix" where
  "process_user ids t uid balances =
     (case get_user_balance t uid of
        Inl e \<Rightarrow> Inl e
      | Inr user_balance \<Rightarrow>
          if user_balance \<noteq> 0
          then foldM (allocate t uid user_balance) ids balances
          else Inr balances)"

definition process_transaction ::
  "string list \<Rightarrow> transaction \<Rightarrow> matrix \<Rightarrow> error + matrix" where
  "process_transaction ids t balances = foldM (process_user ids t) ids balances"

text \<open>
  The zero matrix of lines 226-227: a row for every user, a column for every other user.
\<close>

definition initial_matrix :: "string list \<Rightarrow> matrix" where
  "initial_matrix ids =
     map_of (map (\<lambda>uid.
       (uid, map_of (map (\<lambda>other_id. (other_id, 0))
                           (filter (\<lambda>other_id. other_id \<noteq> uid) ids)))) ids)"

definition calculate_balances :: "expense_manager \<Rightarrow> error + matrix" where
  "calculate_balances m =
     foldM (process_transaction (user_ids m)) (map snd (transactions m))
       (initial_matrix (user_ids m))"

text \<open>
  \<^verbatim>\<open>get_balances\<close> (lines 254-259). When the computation raises, the cache and its
  flag are as before.
\<close>

definition get_balances :: "expense_manager \<Rightarrow> (error + matrix) \<times> expense_manager" where
  "get_balances m =
     (if \<not> cache_valid m then
        (case calculate_balances m of
           Inl e \<Rightarrow> (Inl e, m)
         | Inr b \<Rightarrow> (Inr b, m\<lparr>balance_cache := b, cache_valid := True\<rparr>))
      else (Inr (balance_cache m), m))"


subsection \<open>The balances of one user\<close>

text \<open>
  \<^verbatim>\<open>ExpenseManager.get_user_balance\<close> (lines 261-287). \<open>owed_by\<close> is the inner
  dictionary of lines 272-273, \<open>positive_entries\<close> the filter \<^verbatim>\<open>if amount > 0\<close>,
  \<open>net_entry\<close> the body of the loop of lines 278-285.
\<close>

fun owed_by :: "matrix \<Rightarrow> string \<Rightarrow> string list \<Rightarrow> error + (string \<rightharpoonup> decimal)" where
  "owed_by balances uid [] = Inr Map.empty"
| "owed_by balances uid (o_id # ids) =
     (if o_id \<noteq> uid then
        (case balances o_id of
           None \<Rightarrow> Inl (KeyError o_id)
         | Some row \<Rightarrow>
             (case owed_by balances uid ids of
                Inl e \<Rightarrow> Inl e
              | Inr d \<Rightarrow> Inr (d(o_id \<mapsto> (case row uid of None \<Rightarrow> 0 | Some a \<Rightarrow> a)))))
      else owed_by balances uid ids)"

definition positive_entries :: "(string \<rightharpoonup> decimal) \<Rightarrow> (string \<rightharpoonup> decimal)" where
  "positive_entries d =
     (\<lambda>k. case d k of None \<Rightarrow> None | Some amount \<Rightarrow> if amount > 0 then Some amount else None)"

definition dict_get :: "('k \<rightharpoonup> 'v) \<Rightarrow> 'k \<Rightarrow> 'v \<Rightarrow> 'v" where
  "dict_get d k dflt = (case d k of None \<Rightarrow> dflt | Some v \<Rightarrow> v)"

definition net_entry ::
  "(string \<rightharpoonup> decimal) \<Rightarrow> (string \<rightharpoonup> decimal) \<Rightarrow> string \<Rightarrow>
     (string \<rightharpoonup> decimal) \<Rightarrow> string \<Rightarrow> (string \<rightharpoonup> decimal)" where
  "net_entry owed owes uid net other_id =
     (if other_id \<noteq> uid then
        (let owed_amount = dict_get owed other_id 0;
             owes_amount = dict_get owes other_id 0
         in if owed_amount > owes_amount
            then net(other_id \<mapsto> decimal_sub owed_amount owes_amount)
            else if owes_amount > owed_amount
            then net(other_id \<mapsto> decimal_neg (decimal_sub owes_amount owed_amount))
            else net)
      else net)"

definition manager_get_user_balance ::
  "expense_manager \<Rightarrow> string \<Rightarrow> (error + (string \<rightharpoonup> decimal)) \<times> expense_manager" where
  "manager_get_user_balance m uid =
     (if uid \<notin> set (user_ids m) then (Inl (UserDoesNotExist uid), m)
      else
        (case get_balances m of
           (Inl e, m') \<Rightarrow> (Inl e, m')
         | (Inr balances, m') \<Rightarrow>
             (case balances uid of
                None \<Rightarrow> (Inl (KeyError uid), m')
              | Some row \<Rightarrow>
                  (let owes = positive_entries row in
                   case owed_by balances uid (user_ids m') of
                     Inl e \<Rightarrow> (Inl e, m')
                   | Inr d \<Rightarrow>
                       (let owed = positive_entries d
                        in (Inr (foldl (net_entry owed owes uid) Map.empty (user_ids m')), m'))))))"

subsection \<open>Settlements\<close>

text \<open>
  \<^verbatim>\<open>get_simplified_settlements\<close> (lines 289-338). \<open>net_balance\<close> is the sum of lines
  294-298, \<open>net_balances\<close> the list built by the loop of lines 293-299.
\<close>

fun sum_balances :: "transaction list \<Rightarrow> string \<Rightarrow> decimal \<Rightarrow> error + decimal" where
  "sum_balances [] uid acc = Inr acc"
| "sum_balances (t # ts) uid acc =
     (if uid \<in> set (participants t) \<or> uid \<in> set (map fst (payers t)) then
        (case get_user_balance t uid of
           Inl e \<Rightarrow> Inl e
         | Inr b \<Rightarrow> sum_balances ts uid (decimal_add acc b))
      else sum_balances ts uid acc)"

definition net_balance :: "expense_manager \<Rightarrow> string \<Rightarrow> error + decimal" where
  "net_balance m uid = sum_balances (map snd (transactions m)) uid 0"

fun net_balances :: "expense_manager \<Rightarrow> string list \<Rightarrow> error + (string \<times> decimal) list" where
  "net_balances m [] = Inr []"
| "net_balances m (uid # ids) =
     (case net_balance m uid of
        Inl e \<Rightarrow> Inl e
      | Inr b \<Rightarrow>
          (case net_balances m ids of
             Inl e \<Rightarrow> Inl e
           | Inr bs \<Rightarrow> Inr ((uid, b) # bs)))"

type_synonym settlement = "string \<times> string \<times> decimal"

text \<open>
  One iteration of the \<^verbatim>\<open>while i < j\<close> loop (lines 308-336) on the loop's variables
  \<^verbatim>\<open>(balances, i, j, settlements)\<close>: \<open>None\<close> when the loop ends (its condition fails
  or it breaks), the next state otherwise. The loop starts at \<open>i = 0\<close> and
  \<open>j = len(balances) - 1\<close>, \<open>i\<close> only grows and \<open>j\<close> only shrinks, so
  \<open>0 \<le> i\<close> and \<open>j < len(balances)\<close> hold whenever \<open>i < j\<close> does; the step
  states this range with the loop condition.
\<close>

type_synonym settle_state = "(string \<times> decimal) list \<times> int \<times> int \<times> settlement list"

definition settle_step :: "settle_state \<Rightarrow> settle_state option" where
  "settle_step s =
     (case s of (balances, i, j, settlements) \<Rightarrow>
        if i < j \<and> 0 \<le> i \<and> j < int (length balances) then
          (case (balances ! nat i, balances ! nat j) of
             ((debtor, debt), (creditor, credit)) \<Rightarrow>
               if decimal_abs debt < epsilon \<and> decimal_abs credit < epsilon
               then Some (balances, i + 1, j - 1, settlements)
               else if debt \<ge> 0 \<or> credit \<le> 0 then None
               else
                 (let amount = min (decimal_abs debt) credit;
                      settlements' =
                        (if amount > epsilon
                         then settlements @ [(debtor, creditor, amount)]
                         else settlements);
                      balances' = balances[nat i := (debtor, decimal_add debt amount)];
                      balances'' = balances'[nat j := (creditor, decimal_sub credit amount)];
                      i' = (if decimal_abs (snd (balances'' ! nat i)) < epsilon then i + 1 else i);
                      j' = (if decimal_abs (snd (balances'' ! nat j)) < epsilon then j - 1 else j)
                  in Some (balances'', i', j', settlements')))
        else None)"


text \<open>
  The loop terminates: an iteration moves a pointer, except that it may first replace a
  debt of more than 28 digits by a rounded one.
\<close>

lemma epsilon_pos [simp]: "0 < epsilon"
  by (simp add: epsilon_def)

lemma decimal_abs_representable: "representable x \<Longrightarrow> decimal_abs x = \<bar>x\<bar>"
  unfolding decimal_abs_def by (rule representable_fixed) (rule representable_abs)

lemma settle_step_decreases:
  assumes "settle_step s = Some s'"
  shows "(s', s) \<in> measures
     [\<lambda>(b, i, j, st). nat (j - i),
      \<lambda>(b, i, j, st). if representable (snd (b ! nat i)) then 0 else 1]"
proof -
  obtain b i j st where s: "s = (b, i, j, st)" by (cases s)
  obtain debtor debt where d: "b ! nat i = (debtor, debt)" by (cases "b ! nat i")
  obtain creditor credit where c: "b ! nat j = (creditor, credit)" by (cases "b ! nat j")
  from assms have rng: "i < j" "0 \<le> i" "j < int (length b)"
    by (auto simp: settle_step_def s split: if_splits)
  then have ij: "nat i \<noteq> nat j" "nat i < length b" "nat j < length b" by linarith+
  show ?thesis
  proof (cases "decimal_abs debt < epsilon \<and> decimal_abs credit < epsilon")
    case True
    with assms rng have "s' = (b, i + 1, j - 1, st)"
      by (simp add: settle_step_def s d c)
    then show ?thesis using rng by (simp add: s)
  next
    case False
    with assms rng have sign: "debt < 0" "0 < credit"
      by (auto simp: settle_step_def s d c split: if_splits)
    define amount where "amount = min (decimal_abs debt) credit"
    define nd where "nd = decimal_add debt amount"
    define nc where "nc = decimal_sub credit amount"
    define b' where "b' = b[nat i := (debtor, nd), nat j := (creditor, nc)]"
    have bi: "b' ! nat i = (debtor, nd)" and bj: "b' ! nat j = (creditor, nc)"
      using ij by (simp_all add: b'_def)
    define i' where "i' = (if decimal_abs nd < epsilon then i + 1 else i)"
    define j' where "j' = (if decimal_abs nc < epsilon then j - 1 else j)"
    from assms rng False sign ij have "\<exists>st'. s' = (b', i', j', st')"
      by (auto simp add: settle_step_def s d c Let_def amount_def nd_def nc_def b'_def i'_def
          j'_def not_le)
    then obtain st' where s': "s' = (b', i', j', st')" ..
    show ?thesis
    proof (cases "i' = i \<and> j' = j")
      case False
      then have "nat (j' - i') < nat (j - i)"
        using rng by (auto simp: i'_def j'_def split: if_splits)
      then show ?thesis by (simp add: s s')
    next
      case True
      then have big: "\<not> decimal_abs nd < epsilon" "\<not> decimal_abs nc < epsilon"
        by (auto simp: i'_def j'_def split: if_splits)
      have "\<not> representable debt"
      proof
        assume "representable debt"
        then have a: "decimal_abs debt = - debt"
          using sign by (simp add: decimal_abs_representable)
        show False
        proof (cases "- debt \<le> credit")
          case True
          then have "nd = 0" by (simp add: nd_def amount_def a decimal_add_def)
          with big show False by (simp add: decimal_abs_def)
        next
          case False
          then have "nc = 0" by (simp add: nc_def amount_def a decimal_sub_def)
          with big show False by (simp add: decimal_abs_def)
        qed
      qed
      moreover have "representable (snd (b' ! nat i))"
        by (simp add: bi nd_def decimal_add_def)
      ultimately show ?thesis using True by (simp add: s s' d)
    qed
  qed
qed

function settle_loop :: "settle_state \<Rightarrow> settlement list" where
  "settle_loop s =
     (case settle_step s of
        None \<Rightarrow> snd (snd (snd s))
      | Some s' \<Rightarrow> settle_loop s')"
  by pat_completeness auto
termination
  by (relation "measures
     [\<lambda>(b, i, j, st). nat (j - i),
      \<lambda>(b, i, j, st). if representable (snd (b ! nat i)) then 0 else 1]")
    (simp_all add: settle_step_decreases del: measures_less measures_lesseq in_measures)

declare settle_loop.simps [simp del]

text \<open>
  The sort of line 302 is stable, as \<open>sort_key\<close> is.
\<close>

definition get_simplified_settlements :: "expense_manager \<Rightarrow> error + settlement list" where
  "get_simplified_settlements m =
     (case net_balances m (user_ids m) of
        Inl e \<Rightarrow> Inl e
      | Inr balances \<Rightarrow>
          Inr (settle_loop (sort_key snd balances, 0, int (length balances) - 1, [])))"

section \<open>The dinner scenario\<close>

text \<open>
  Three users A, B and C are registered in that order; A pays 90 for a dinner shared
  equally by A, B and C.
\<close>

declare context_round_minus [simp]

definition dinner_users :: expense_manager where
  "dinner_users =
     snd (add_user (snd (add_user (snd (add_user ExpenseManager_init
       ''A'' ''Ann'' ''ann@example.org'')) ''B'' ''Bob'' ''bob@example.org''))
       ''C'' ''Cid'' ''cid@example.org'')"

definition dinner :: transaction where
  "dinner = \<lparr>transaction_id = ''t1'', description = ''dinner'', date = 0,
     payers = [(''A'', 90)], participants = [''A'', ''B'', ''C''], split_type = EQUAL,
     split_details = []\<rparr>"

definition dinner_ledger :: expense_manager where
  "dinner_ledger =
     snd (add_transaction dinner_users ''t1'' 0 ''dinner'' [(''A'', 90)] [''A'', ''B'', ''C'']
       EQUAL None)"

lemma dinner_fields [simp]:
  "payers dinner = [(''A'', 90)]"
  "participants dinner = [''A'', ''B'', ''C'']"
  "split_type dinner = EQUAL"
  "split_details dinner = []"
  by (simp_all add: dinner_def)

lemma dinner_users_eq:
  "dinner_users = \<lparr>users =
       [(''A'', \<lparr>user_id = ''A'', name = ''Ann'', email = ''ann@example.org''\<rparr>),
        (''B'', \<lparr>user_id = ''B'', name = ''Bob'', email = ''bob@example.org''\<rparr>),
        (''C'', \<lparr>user_id = ''C'', name = ''Cid'', email = ''cid@example.org''\<rparr>)],
     transactions = [],
     user_transactions = [''A'' \<mapsto> {}, ''B'' \<mapsto> {}, ''C'' \<mapsto> {}],
     balance_cache = Map.empty, cache_valid = False\<rparr>"
  by (simp add: dinner_users_def add_user_def ExpenseManager_init_def Let_def)

lemma dinner_users_ids: "user_ids dinner_users = [''A'', ''B'', ''C'']"
  by (simp add: dinner_users_eq user_ids_def)

lemma dinner_total: "total_amount dinner = 90"
  by (simp add: total_amount_def py_sum_def decimal_add_def)

lemma dinner_valid: "validate dinner = None"
  by (simp add: validate_def)

lemma dinner_init:
  "Transaction_init ''t1'' ''dinner'' 0 [(''A'', 90)] [''A'', ''B'', ''C''] EQUAL None = Inr dinner"
  using dinner_valid by (simp add: Transaction_init_def dinner_def Let_def)

lemma dinner_added:
  "add_transaction dinner_users ''t1'' 0 ''dinner'' [(''A'', 90)] [''A'', ''B'', ''C''] EQUAL None
     = (Inr dinner, dinner_ledger)"
  by (simp add: dinner_ledger_def add_transaction_def dinner_users_ids dinner_init)

lemma dinner_transactions: "map snd (transactions dinner_ledger) = [dinner]"
  by (simp add: dinner_ledger_def add_transaction_def dinner_users_ids dinner_init)
    (simp add: dinner_users_eq)

lemma dinner_ledger_ids: "user_ids dinner_ledger = [''A'', ''B'', ''C'']"
  using dinner_users_ids
  by (simp add: dinner_ledger_def add_transaction_def dinner_init user_ids_def)

lemma dinner_share:
  "get_user_share dinner ''A'' = Inr (PyDecimal 30)"
  "get_user_share dinner ''B'' = Inr (PyDecimal 30)"
  "get_user_share dinner ''C'' = Inr (PyDecimal 30)"
  by (simp_all add: get_user_share_def dinner_total decimal_truediv_def)

lemma dinner_balances:
  "get_user_balance dinner ''A'' = Inr 60"
  "get_user_balance dinner ''B'' = Inr (- 30)"
  "get_user_balance dinner ''C'' = Inr (- 30)"
  by (simp_all add: get_user_balance_def dinner_share get_user_payment_def decimal_sub_def)

lemma dinner_net:
  "net_balances dinner_ledger (user_ids dinner_ledger) = Inr [(''A'', 60), (''B'', - 30), (''C'', - 30)]"
  by (simp add: dinner_ledger_ids net_balance_def dinner_transactions dinner_balances decimal_add_def)

lemma dinner_settle:
  "get_simplified_settlements dinner_ledger = Inr [(''B'', ''A'', 30), (''C'', ''A'', 30)]"
  by (simp add: get_simplified_settlements_def dinner_net settle_loop.simps settle_step_def
      decimal_abs_def decimal_add_def decimal_sub_def epsilon_def Let_def)

text \<open>
  Claim C9. In the ledger with the three users A, B, C and the one transaction in which
  A pays 90 for the participants A, B, C under the EQUAL split, the transaction is
  accepted, the balances in it are +60 for A and -30 for each of B and C, and
  \<^verbatim>\<open>get_simplified_settlements\<close> returns exactly the settlements (B, A, 30) and
  (C, A, 30); B comes first because the sort is stable and B was registered before C.
\<close>

theorem dinner_scenario:
  "add_transaction dinner_users ''t1'' 0 ''dinner'' [(''A'', 90)] [''A'', ''B'', ''C''] EQUAL None
     = (Inr dinner, dinner_ledger) \<and>
   get_user_balance dinner ''A'' = Inr 60 \<and>
   get_user_balance dinner ''B'' = Inr (- 30) \<and>
   get_user_balance dinner ''C'' = Inr (- 30) \<and>
   get_simplified_settlements dinner_ledger = Inr [(''B'', ''A'', 30), (''C'', ''A'', 30)]"
  by (simp only: dinner_added dinner_balances dinner_settle simp_thms)

section \<open>Transactions without split details\<close>

lemma find_None_positive:
  "(\<forall>(u, a) \<in> set pays. 0 < a) \<Longrightarrow> find (\<lambda>(u, a). a \<le> (0::decimal)) pays = None"
  by (auto simp: find_None_iff)

lemma validate_empty_details:
  assumes "split_details t = []" and "\<forall>(u, a) \<in> set (payers t). 0 < a"
  shows "validate t = None"
  using assms find_None_positive [of "payers t"] by (simp add: validate_def)

lemma share_empty_details:
  assumes "split_details t = []" and "split_type t \<noteq> EQUAL"
  shows "get_user_share t uid = Inr (PyDecimal 0)"
  using assms by (cases "split_type t") (simp_all add: get_user_share_def)

lemma balance_empty_details:
  assumes "split_details t = []" and "split_type t \<noteq> EQUAL"
  shows "get_user_balance t uid = Inr (context_round (get_user_payment t uid))"
  using share_empty_details [OF assms] by (simp add: get_user_balance_def decimal_sub_def)

lemma payment_of_payer:
  "distinct (map fst (payers t)) \<Longrightarrow> (u, a) \<in> set (payers t) \<Longrightarrow> get_user_payment t u = a"
  by (simp add: get_user_payment_def)

lemma representable_of_int: "\<bar>c\<bar> < 10 ^ 28 \<Longrightarrow> representable (of_int c)"
  unfolding representable_def by (rule exI [of _ c], rule exI [of _ 0]) simp

lemma representable_numeral [simp]: "numeral k < (10::int) ^ 28 \<Longrightarrow> representable (numeral k)"
  using representable_of_int [of "numeral k"] by simp

text \<open>
  Claim C10. A transaction whose split rule is PERCENTAGE or EXACT and whose split
  details are absent or empty is accepted by the constructor as soon as its payments
  are positive: neither sum check runs. Every user's share in it is 0. So the balance
  of every payer is the payment itself and that of every other user is 0, and the
  balances add up to \<^verbatim>\<open>total_amount\<close>, not to zero. (The payers are the keys of a
  dictionary, and each payment is a Decimal of at most 28 digits, which the subtraction
  of the zero share leaves as it is.)
\<close>

theorem empty_details_accepted:
  assumes "st = PERCENTAGE \<or> st = EXACT"
    and "details = None \<or> details = Some []"
    and "\<forall>(u, a) \<in> set pays. 0 < a"
    and "distinct (map fst pays)"
    and "\<forall>(u, a) \<in> set pays. representable a"
  shows "\<exists>t. Transaction_init tid descr dt pays parts st details = Inr t \<and>
           payers t = pays \<and> participants t = parts \<and> split_type t = st \<and>
           split_details t = [] \<and>
           (\<forall>uid. get_user_share t uid = Inr (PyDecimal 0)) \<and>
           (\<forall>uid. uid \<notin> fst ` set pays \<longrightarrow> get_user_balance t uid = Inr 0) \<and>
           map (get_user_balance t) (map fst pays) = map (Inr \<circ> snd) pays \<and>
           py_sum (map snd pays) = total_amount t"
proof -
  define t where "t = \<lparr>transaction_id = tid, description = descr, date = dt, payers = pays,
      participants = parts, split_type = st,
      split_details = (case details of None \<Rightarrow> [] | Some d \<Rightarrow> d)\<rparr>"
  have f: "payers t = pays" "participants t = parts" "split_type t = st" "split_details t = []"
    using assms(2) by (auto simp: t_def)
  have ne: "split_type t \<noteq> EQUAL" using assms(1) f by auto
  have "validate t = None"
    using assms(3) f by (intro validate_empty_details) simp_all
  then have init: "Transaction_init tid descr dt pays parts st details = Inr t"
    by (simp add: Transaction_init_def t_def Let_def)
  have sh: "\<forall>uid. get_user_share t uid = Inr (PyDecimal 0)"
    using share_empty_details [OF f(4) ne] by simp
  have bal: "get_user_balance t uid = Inr (context_round (get_user_payment t uid))" for uid
    by (rule balance_empty_details [OF f(4) ne])
  have nonp: "\<forall>uid. uid \<notin> fst ` set pays \<longrightarrow> get_user_balance t uid = Inr 0"
  proof (intro allI impI)
    fix uid assume "uid \<notin> fst ` set pays"
    then have "map_of pays uid = None" by (simp add: map_of_eq_None_iff)
    then show "get_user_balance t uid = Inr 0"
      by (simp add: bal get_user_payment_def f)
  qed
  have pay: "map (get_user_balance t) (map fst pays) = map (Inr \<circ> snd) pays"
  proof -
    have *: "\<forall>p \<in> set pays. get_user_payment t (fst p) = snd p"
      using payment_of_payer [of t] assms(4) f by auto
    have "get_user_balance t (fst p) = Inr (snd p)" if "p \<in> set pays" for p
    proof -
      have "representable (snd p)" using assms(5) that by (cases p) auto
      then show ?thesis using * that by (simp add: bal representable_fixed)
    qed
    then show ?thesis by simp
  qed
  have "py_sum (map snd pays) = total_amount t" by (simp add: total_amount_def f)
  with init f sh nonp pay show ?thesis by blast
qed

theorem empty_details_accepted_witness:
  "\<exists>t. Transaction_init ''t2'' ''rent'' 0 [(''A'', 90)] [''A'', ''B''] PERCENTAGE None = Inr t \<and>
       payers t = [(''A'', 90)] \<and> participants t = [''A'', ''B''] \<and>
       split_type t = PERCENTAGE \<and> split_details t = [] \<and>
       (\<forall>uid. get_user_share t uid = Inr (PyDecimal 0)) \<and>
       (\<forall>uid. uid \<notin> fst ` set [(''A'', 90::decimal)] \<longrightarrow> get_user_balance t uid = Inr 0) \<and>
       map (get_user_balance t) (map fst [(''A'', 90::decimal)]) = map (Inr \<circ> snd) [(''A'', 90)] \<and>
       py_sum (map snd [(''A'', 90::decimal)]) = total_amount t"
  by (rule empty_details_accepted) simp_all

section \<open>The equal split\<close>

text \<open>The value of a share, and the sum of the shares over the participants sequence.\<close>

definition number_value :: "number \<Rightarrow> rat" where
  "number_value x = (case x of PyDecimal d \<Rightarrow> d | PyFloat f \<Rightarrow> f)"

definition share_value :: "transaction \<Rightarrow> string \<Rightarrow> rat" where
  "share_value t uid = (case get_user_share t uid of Inl e \<Rightarrow> 0 | Inr x \<Rightarrow> number_value x)"

definition sum_of_shares :: "transaction \<Rightarrow> rat" where
  "sum_of_shares t = sum_list (map (share_value t) (participants t))"

text \<open>\<open>get_user_share\<close> never raises: its division is by a positive length.\<close>

lemma get_user_share_returns: "\<exists>x. get_user_share t uid = Inr x"
proof (cases "uid \<in> set (participants t)")
  case False
  then show ?thesis by (simp add: get_user_share_def)
next
  case True
  then have "participants t \<noteq> []" by auto
  then show ?thesis
    using True
    by (cases "split_type t")
      (auto simp: get_user_share_def decimal_truediv_def split: option.splits)
qed

lemma equal_share_value:
  assumes "split_type t = EQUAL" and "uid \<in> set (participants t)"
  shows "share_value t uid = context_round (total_amount t / of_nat (length (participants t)))"
proof -
  have ne: "participants t \<noteq> []" using assms(2) by auto
  show ?thesis
  proof (cases "payers t = []")
    case True
    then have "total_amount t = 0" by (simp add: total_amount_def py_sum_def)
    then show ?thesis
      using assms ne True by (simp add: share_value_def get_user_share_def number_value_def)
  next
    case False
    then show ?thesis
      using assms ne
      by (simp add: share_value_def get_user_share_def number_value_def decimal_truediv_def)
  qed
qed

lemma equal_sum_of_shares:
  assumes "split_type t = EQUAL"
  shows "sum_of_shares t = of_nat (length (participants t)) *
           context_round (total_amount t / of_nat (length (participants t)))"
proof -
  have "map (share_value t) (participants t)
      = replicate (length (participants t))
          (context_round (total_amount t / of_nat (length (participants t))))"
    using equal_share_value [OF assms]
    by (simp add: map_replicate_const [symmetric] cong: map_cong)
  then show ?thesis by (simp add: sum_of_shares_def sum_list_replicate)
qed

lemma equal_sum_error:
  assumes "split_type t = EQUAL" and "participants t \<noteq> []"
  shows "\<bar>sum_of_shares t - total_amount t\<bar> * (2 * 10 ^ 27) \<le> \<bar>total_amount t\<bar>"
proof -
  define n :: rat where "n = of_nat (length (participants t))"
  define q where "q = total_amount t / n"
  have n: "0 < n" using assms(2) by (simp add: n_def)
  have T: "total_amount t = n * q" using n by (simp add: q_def)
  have S: "sum_of_shares t = n * context_round q"
    using equal_sum_of_shares [OF assms(1)] by (simp add: n_def q_def)
  have "\<bar>sum_of_shares t - total_amount t\<bar> = n * \<bar>context_round q - q\<bar>"
    using n by (simp add: S T abs_mult flip: right_diff_distrib)
  then have "\<bar>sum_of_shares t - total_amount t\<bar> * (2 * 10 ^ 27)
      = n * (\<bar>context_round q - q\<bar> * (2 * 10 ^ 27))" by simp
  also have "\<dots> \<le> n * \<bar>q\<bar>"
    using n context_round_error [of q] by (intro mult_left_mono) simp_all
  also have "\<dots> = \<bar>total_amount t\<bar>" using n by (simp add: T abs_mult)
  finally show ?thesis .
qed

text \<open>
  Claim C2, as amended. For every transaction whose split rule is EQUAL and that has at
  least one participant, the share of each participant is
  \<^verbatim>\<open>total_amount / len(participants)\<close> as the Decimal division returns it, rounded to
  28 significant digits. So the sum of the shares over the participants sequence equals
  \<^verbatim>\<open>total_amount\<close> exactly when the quotient needs no rounding, and in general differs
  from it by at most \<open>|total_amount| * 5 * 10^-28\<close>.
\<close>

theorem equal_split_sum:
  assumes "split_type t = EQUAL" and "participants t \<noteq> []"
  shows "(\<forall>uid \<in> set (participants t).
            share_value t uid = context_round (total_amount t / of_nat (length (participants t)))) \<and>
         \<bar>sum_of_shares t - total_amount t\<bar> * (2 * 10 ^ 27) \<le> \<bar>total_amount t\<bar> \<and>
         (representable (total_amount t / of_nat (length (participants t)))
            \<longrightarrow> sum_of_shares t = total_amount t)"
proof -
  have "representable (total_amount t / of_nat (length (participants t)))
      \<longrightarrow> sum_of_shares t = total_amount t"
    using assms(2) by (simp add: equal_sum_of_shares [OF assms(1)] representable_fixed)
  then show ?thesis
    using equal_share_value [OF assms(1)] equal_sum_error [OF assms] by simp
qed

theorem equal_split_sum_witness:
  "split_type dinner = EQUAL \<and> participants dinner \<noteq> [] \<and>
   share_value dinner ''B'' = 30 \<and> sum_of_shares dinner = total_amount dinner"
  using equal_split_sum [of dinner] by (simp add: dinner_total)

text \<open>
  The claim as stated fails twice. 100 paid for three participants gives three shares
  of 33.33333333333333333333333333, which add up to 99.99999999999999999999999999; and
  a transaction with no participant has no share at all, whatever was paid.
\<close>

definition three_way :: transaction where
  "three_way = \<lparr>transaction_id = ''t3'', description = ''taxi'', date = 0,
     payers = [(''A'', 100)], participants = [''A'', ''B'', ''C''], split_type = EQUAL,
     split_details = []\<rparr>"

definition nobody :: transaction where
  "nobody = \<lparr>transaction_id = ''t4'', description = ''gift'', date = 0,
     payers = [(''A'', 90)], participants = [], split_type = EQUAL,
     split_details = []\<rparr>"

lemma three_way_fields [simp]:
  "payers three_way = [(''A'', 100)]"
  "participants three_way = [''A'', ''B'', ''C'']"
  "split_type three_way = EQUAL"
  "split_details three_way = []"
  by (simp_all add: three_way_def)

lemma nobody_fields [simp]:
  "payers nobody = [(''A'', 90)]"
  "participants nobody = []"
  "split_type nobody = EQUAL"
  "split_details nobody = []"
  by (simp_all add: nobody_def)

lemma three_way_total: "total_amount three_way = 100"
  by (simp add: total_amount_def py_sum_def decimal_add_def)

lemma nobody_total: "total_amount nobody = 90"
  by (simp add: total_amount_def py_sum_def decimal_add_def)

lemma round_third_of_100:
  "context_round (100 / 3) = 3333333333333333333333333333 / 100000000000000000000000000"
  using context_round_nearest [of "- 26" "100 / 3" 3333333333333333333333333333]
  by (simp add: pow10_def)

lemma three_way_sum:
  "sum_of_shares three_way = 9999999999999999999999999999 / 100000000000000000000000000"
  by (simp add: equal_sum_of_shares three_way_total round_third_of_100)

lemma nobody_sum: "sum_of_shares nobody = 0"
  by (simp add: sum_of_shares_def)

theorem equal_split_sum_counterexample:
  "split_type three_way = EQUAL \<and> validate three_way = None \<and>
   total_amount three_way = 100 \<and>
   sum_of_shares three_way = 9999999999999999999999999999 / 100000000000000000000000000 \<and>
   sum_of_shares three_way \<noteq> total_amount three_way \<and>
   split_type nobody = EQUAL \<and> validate nobody = None \<and>
   total_amount nobody = 90 \<and> sum_of_shares nobody = 0"
  by (simp add: three_way_total three_way_sum nobody_total nobody_sum validate_def)

section \<open>The participants sequence\<close>

lemma total_amount_participants [simp]:
  "total_amount (t\<lparr>participants := ps\<rparr>) = total_amount t"
  by (simp add: total_amount_def)

lemma get_user_payment_participants [simp]:
  "get_user_payment (t\<lparr>participants := ps\<rparr>) uid = get_user_payment t uid"
  by (simp add: get_user_payment_def)

lemma get_user_share_participants:
  assumes "set ps = set ps'" and "split_type t = EQUAL \<longrightarrow> length ps = length ps'"
  shows "get_user_share (t\<lparr>participants := ps\<rparr>) uid = get_user_share (t\<lparr>participants := ps'\<rparr>) uid"
  using assms
  by (cases "split_type t") (simp_all add: get_user_share_def split: option.splits sum.splits)

text \<open>
  Claim C8, as amended. The share, the payment and the balance of every user depend on
  the participants sequence only through the set of its ids and, under the EQUAL split,
  its length. So they are unchanged by any reordering of the participants, and under
  PERCENTAGE and EXACT also by the removal of duplicate ids. Under EQUAL the divisor is
  \<^verbatim>\<open>len(participants)\<close>, which counts a repeated id every time it occurs.
\<close>

theorem participants_order_irrelevant:
  assumes "set ps = set ps'" and "split_type t = EQUAL \<longrightarrow> length ps = length ps'"
  shows "get_user_share (t\<lparr>participants := ps\<rparr>) uid = get_user_share (t\<lparr>participants := ps'\<rparr>) uid \<and>
         get_user_payment (t\<lparr>participants := ps\<rparr>) uid = get_user_payment (t\<lparr>participants := ps'\<rparr>) uid \<and>
         get_user_balance (t\<lparr>participants := ps\<rparr>) uid = get_user_balance (t\<lparr>participants := ps'\<rparr>) uid"
  using get_user_share_participants [OF assms, of uid]
  by (simp add: get_user_balance_def)

theorem participants_order_irrelevant_witness:
  "get_user_share (dinner\<lparr>participants := [''C'', ''A'', ''B'']\<rparr>) ''B''
     = get_user_share (dinner\<lparr>participants := [''A'', ''B'', ''C'']\<rparr>) ''B'' \<and>
   get_user_payment (dinner\<lparr>participants := [''C'', ''A'', ''B'']\<rparr>) ''B''
     = get_user_payment (dinner\<lparr>participants := [''A'', ''B'', ''C'']\<rparr>) ''B'' \<and>
   get_user_balance (dinner\<lparr>participants := [''C'', ''A'', ''B'']\<rparr>) ''B''
     = get_user_balance (dinner\<lparr>participants := [''A'', ''B'', ''C'']\<rparr>) ''B'' \<and>
   get_user_balance (dinner\<lparr>participants := [''A'', ''B'', ''C'']\<rparr>) ''B'' = Inr (- 30)"
proof -
  have "set [''C'', ''A'', ''B''] = set [''A'', ''B'', ''C'']" by auto
  moreover have "split_type dinner = EQUAL \<longrightarrow> length [''C'', ''A'', ''B''] = length [''A'', ''B'', ''C'']"
    by simp
  ultimately show ?thesis
    using participants_order_irrelevant [of "[''C'', ''A'', ''B'']" "[''A'', ''B'', ''C'']" dinner "''B''"]
      dinner_balances(2)
    by (simp add: dinner_def)
qed

text \<open>
  With the participants A, A, B and 90 paid by A, the share of A is 30; once the
  repeated A is removed it is 45.
\<close>

definition doubled :: transaction where
  "doubled = \<lparr>transaction_id = ''t5'', description = ''lunch'', date = 0,
     payers = [(''A'', 90)], participants = [''A'', ''A'', ''B''], split_type = EQUAL,
     split_details = []\<rparr>"

theorem participants_order_irrelevant_counterexample:
  "validate doubled = None \<and>
   remdups (participants doubled) = [''A'', ''B''] \<and>
   get_user_share doubled ''A'' = Inr (PyDecimal 30) \<and>
   get_user_share (doubled\<lparr>participants := remdups (participants doubled)\<rparr>) ''A''
     = Inr (PyDecimal 45) \<and>
   get_user_balance doubled ''A'' = Inr 60 \<and>
   get_user_balance (doubled\<lparr>participants := remdups (participants doubled)\<rparr>) ''A'' = Inr 45"
  by (simp add: doubled_def validate_def get_user_share_def get_user_balance_def
      get_user_payment_def total_amount_def py_sum_def decimal_add_def decimal_sub_def
      decimal_truediv_def)

section \<open>Failure of \<open>add_transaction\<close>\<close>

text \<open>
  The invariants of a transaction as the specification lists them: every payment is
  positive; non-empty PERCENTAGE details sum to 100 and non-empty EXACT details to the
  total paid, each within 0.01. Sums and deviations are the Decimal ones.
\<close>

definition invariant_violated ::
  "(string \<times> decimal) list \<Rightarrow> split_type \<Rightarrow> (string \<times> decimal) list \<Rightarrow> bool" where
  "invariant_violated pays st d \<longleftrightarrow>
     (\<exists>p \<in> set pays. snd p \<le> 0) \<or>
     (st = PERCENTAGE \<and> d \<noteq> [] \<and>
        epsilon < decimal_abs (decimal_sub (py_sum (map snd d)) 100)) \<or>
     (st = EXACT \<and> d \<noteq> [] \<and>
        epsilon < decimal_abs (decimal_sub (py_sum (map snd d)) (py_sum (map snd pays))))"

definition validation_error :: "error \<Rightarrow> bool" where
  "validation_error e \<longleftrightarrow>
     (\<exists>u. e = PaymentNotPositive u) \<or> (\<exists>p. e = PercentageSum p) \<or> (\<exists>a b. e = ExactSum a b)"

lemma find_SomeD: "find P xs = Some x \<Longrightarrow> x \<in> set xs \<and> P x"
  by (induction xs) (auto split: if_splits)

lemma find_payment:
  "find (\<lambda>(u, a). a \<le> (0::decimal)) pays = None \<longleftrightarrow> \<not> (\<exists>p \<in> set pays. snd p \<le> 0)"
  by (auto simp: find_None_iff)

lemma validate_invariant:
  "validate t = None \<longleftrightarrow> \<not> invariant_violated (payers t) (split_type t) (split_details t)"
proof (cases "find (\<lambda>(u, a). a \<le> (0::decimal)) (payers t)")
  case None
  have nopay: "\<not> (\<exists>p \<in> set (payers t). snd p \<le> 0)"
    using None find_payment [of "payers t"] by blast
  show ?thesis
    by (simp add: validate_def invariant_violated_def total_amount_def Let_def None nopay)
next
  case (Some p)
  then have "p \<in> set (payers t) \<and> snd p \<le> 0"
    by (auto dest!: find_SomeD)
  then have "\<exists>p \<in> set (payers t). snd p \<le> 0" by blast
  then show ?thesis
    using Some by (auto simp: validate_def invariant_violated_def split: prod.splits)
qed

lemma validate_error: "validate t = Some e \<Longrightarrow> validation_error e"
  by (auto simp: validate_def validation_error_def Let_def
      split: option.splits prod.splits if_splits)

lemma Transaction_init_cases:
  "Transaction_init tid descr dt pays parts st details = Inl e \<Longrightarrow> validation_error e"
  by (auto simp: Transaction_init_def Let_def validate_error split: option.splits)

lemma Transaction_init_invariant:
  "(\<exists>t. Transaction_init tid descr dt pays parts st details = Inr t) \<longleftrightarrow>
   \<not> invariant_violated pays st (case details of None \<Rightarrow> [] | Some d \<Rightarrow> d)"
proof -
  define t where "t = \<lparr>transaction_id = tid, description = descr, date = dt, payers = pays,
      participants = parts, split_type = st,
      split_details = (case details of None \<Rightarrow> [] | Some d \<Rightarrow> d)\<rparr>"
  have "(\<exists>t'. Transaction_init tid descr dt pays parts st details = Inr t') \<longleftrightarrow> validate t = None"
    by (auto simp: Transaction_init_def Let_def t_def split: option.splits)
  then show ?thesis by (simp add: validate_invariant t_def)
qed

lemma context_round_1 [simp]: "context_round 1 = 1"
  using context_round_of_int [of 1] by simp

lemma find_unknown:
  "find (\<lambda>u. u \<notin> set known) ids = None \<longleftrightarrow> set ids \<subseteq> set known"
  by (auto simp: find_None_iff)

text \<open>
  Claim C4. \<^verbatim>\<open>add_transaction\<close> raises the referential error, naming an id of the
  payers or participants that is not a user, whenever there is such an id, whatever
  else is wrong with the request: the check comes before the construction. When every
  id is known it raises a validation error exactly when an invariant is violated, and
  returns the transaction otherwise. Whenever it raises, the ledger is the one it was
  called on: transactions, index, cache and validity flag.
\<close>

theorem add_transaction_failure:
  "(\<not> set (map fst pays @ parts) \<subseteq> set (user_ids m) \<longrightarrow>
      (\<exists>u. fst (add_transaction m tid now descr pays parts st details) = Inl (UserDoesNotExist u) \<and>
           u \<in> set (map fst pays @ parts) \<and> u \<notin> set (user_ids m))) \<and>
   (set (map fst pays @ parts) \<subseteq> set (user_ids m) \<and>
    invariant_violated pays st (case details of None \<Rightarrow> [] | Some d \<Rightarrow> d) \<longrightarrow>
      (\<exists>e. fst (add_transaction m tid now descr pays parts st details) = Inl e \<and>
           validation_error e)) \<and>
   (set (map fst pays @ parts) \<subseteq> set (user_ids m) \<and>
    \<not> invariant_violated pays st (case details of None \<Rightarrow> [] | Some d \<Rightarrow> d) \<longrightarrow>
      (\<exists>t. fst (add_transaction m tid now descr pays parts st details) = Inr t)) \<and>
   (\<forall>e. fst (add_transaction m tid now descr pays parts st details) = Inl e \<longrightarrow>
      snd (add_transaction m tid now descr pays parts st details) = m)"
proof (cases "find (\<lambda>u. u \<notin> set (user_ids m)) (map fst pays @ parts)")
  case (Some u)
  then have "u \<in> set (map fst pays @ parts)" "u \<notin> set (user_ids m)"
    by (auto dest: find_SomeD)
  moreover have "add_transaction m tid now descr pays parts st details = (Inl (UserDoesNotExist u), m)"
    using Some by (simp add: add_transaction_def)
  ultimately show ?thesis by auto
next
  case None
  then have known: "set (map fst pays @ parts) \<subseteq> set (user_ids m)"
    by (simp only: find_unknown)
  show ?thesis
  proof (cases "Transaction_init tid descr now pays parts st details")
    case (Inl e)
    then have r: "add_transaction m tid now descr pays parts st details = (Inl e, m)"
      using None by (simp add: add_transaction_def)
    have "validation_error e" using Inl by (rule Transaction_init_cases)
    moreover have "invariant_violated pays st (case details of None \<Rightarrow> [] | Some d \<Rightarrow> d)"
      using Transaction_init_invariant [of tid descr now pays parts st details] Inl by auto
    ultimately show ?thesis using known r by auto
  next
    case (Inr t)
    then have "fst (add_transaction m tid now descr pays parts st details) = Inr t"
      using None by (simp add: add_transaction_def)
    moreover have "\<not> invariant_violated pays st (case details of None \<Rightarrow> [] | Some d \<Rightarrow> d)"
      using Transaction_init_invariant [of tid descr now pays parts st details] Inr by auto
    ultimately show ?thesis using known by auto
  qed
qed

lemma unknown_payer:
  "fst (add_transaction dinner_users ''t6'' 0 ''cab'' [(''Z'', 10)] [''A''] EQUAL None)
     = Inl (UserDoesNotExist ''Z'')"
  by (simp add: add_transaction_def dinner_users_ids)

lemma percent_101:
  "fst (add_transaction dinner_users ''t7'' 0 ''cab'' [(''A'', 10)] [''A'', ''B''] PERCENTAGE
     (Some [(''A'', 50), (''B'', 51)])) = Inl (PercentageSum 101)"
  by (simp add: add_transaction_def dinner_users_ids Transaction_init_def validate_def
      py_sum_def decimal_add_def decimal_sub_def decimal_abs_def epsilon_def Let_def)

theorem add_transaction_failure_witness:
  "fst (add_transaction dinner_users ''t6'' 0 ''cab'' [(''Z'', 10)] [''A''] EQUAL None)
     = Inl (UserDoesNotExist ''Z'') \<and>
   snd (add_transaction dinner_users ''t6'' 0 ''cab'' [(''Z'', 10)] [''A''] EQUAL None)
     = dinner_users \<and>
   fst (add_transaction dinner_users ''t7'' 0 ''cab'' [(''A'', 10)] [''A'', ''B''] PERCENTAGE
     (Some [(''A'', 50), (''B'', 51)])) = Inl (PercentageSum 101) \<and>
   snd (add_transaction dinner_users ''t7'' 0 ''cab'' [(''A'', 10)] [''A'', ''B''] PERCENTAGE
     (Some [(''A'', 50), (''B'', 51)])) = dinner_users"
  using add_transaction_failure [of "[(''Z'', 10)]" "[''A'']" dinner_users "''t6''" 0 "''cab''" EQUAL None]
    add_transaction_failure [of "[(''A'', 10)]" "[''A'', ''B'']" dinner_users "''t7''" 0 "''cab''"
      PERCENTAGE "Some [(''A'', 50), (''B'', 51)]"]
    unknown_payer percent_101
  by simp

section \<open>The pairwise balance matrix\<close>

text \<open>
  The balance of a user in a transaction as a value: payment minus share, in Decimal
  arithmetic. \<open>get_user_balance\<close> returns it or raises \<^verbatim>\<open>TypeError\<close>.
\<close>

definition bal :: "transaction \<Rightarrow> string \<Rightarrow> decimal" where
  "bal t uid = decimal_sub (get_user_payment t uid) (share_value t uid)"

text \<open>
  The one case in which the share is a float: no payer, so that \<^verbatim>\<open>total_amount\<close> is
  the int \<open>0\<close>, and an equal split among participants that include the user.
\<close>

definition float_share :: "transaction \<Rightarrow> string \<Rightarrow> bool" where
  "float_share t uid \<longleftrightarrow> split_type t = EQUAL \<and> payers t = [] \<and> uid \<in> set (participants t)"

lemma get_user_share_float:
  "get_user_share t uid = Inr (PyFloat x) \<longleftrightarrow> float_share t uid \<and> x = 0"
  by (cases "split_type t")
    (auto simp: get_user_share_def float_share_def decimal_truediv_def
      split: option.splits if_splits)

lemma get_user_balance_cases:
  "(\<not> float_share t uid \<and> get_user_balance t uid = Inr (bal t uid)) \<or>
   (float_share t uid \<and> get_user_balance t uid = Inl TypeError)"
proof -
  obtain x where x: "get_user_share t uid = Inr x"
    using get_user_share_returns by blast
  show ?thesis
  proof (cases x)
    case (PyDecimal d)
    then have "\<not> float_share t uid"
      using x get_user_share_float [of t uid] by auto
    then show ?thesis
      using x PyDecimal
      by (simp add: get_user_balance_def bal_def share_value_def number_value_def)
  next
    case (PyFloat f)
    then have "float_share t uid"
      using x get_user_share_float [of t uid f] by auto
    then show ?thesis
      using x PyFloat by (simp add: get_user_balance_def)
  qed
qed

lemma bal_no_payers:
  assumes "payers t = []" and "split_type t = EQUAL"
  shows "bal t uid = 0"
proof -
  have "total_amount t = 0" using assms by (simp add: total_amount_def py_sum_def)
  then have "share_value t uid = 0"
    using assms
    by (auto simp: share_value_def get_user_share_def number_value_def)
  then show ?thesis using assms by (simp add: bal_def get_user_payment_def decimal_sub_def)
qed

lemma get_user_balance_Inr: "get_user_balance t uid = Inr b \<Longrightarrow> b = bal t uid"
  using get_user_balance_cases [of t uid] by auto

lemma get_user_balance_Inl: "get_user_balance t uid = Inl e \<Longrightarrow> e = TypeError"
  using get_user_balance_cases [of t uid] by auto

text \<open>
  The matrix the specification describes. For a transaction, a debtor and a creditor,
  \<open>allocation\<close> is the amount the transaction adds to the debtor's debt to the
  creditor, if any; \<open>pairwise_debt\<close> accumulates it over the transactions in order.
\<close>

definition total_positive_of :: "transaction \<Rightarrow> string \<Rightarrow> decimal" where
  "total_positive_of t debtor =
     py_sum (map (\<lambda>p. max (bal t p) 0) (filter (\<lambda>p. p \<noteq> debtor) (participants t)))"

definition allocation :: "transaction \<Rightarrow> string \<Rightarrow> string \<Rightarrow> decimal option" where
  "allocation t debtor creditor =
     (if debtor \<noteq> creditor \<and> bal t debtor < 0 \<and> 0 < bal t creditor \<and>
         0 < total_positive_of t debtor
      then Some (decimal_mul (context_round (bal t creditor / total_positive_of t debtor))
                   (decimal_abs (bal t debtor)))
      else None)"

definition accumulate :: "decimal \<Rightarrow> decimal option \<Rightarrow> decimal" where
  "accumulate acc a = (case a of None \<Rightarrow> acc | Some x \<Rightarrow> decimal_add acc x)"

definition pairwise_debt :: "transaction list \<Rightarrow> string \<Rightarrow> string \<Rightarrow> decimal" where
  "pairwise_debt ts debtor creditor =
     foldl (\<lambda>acc t. accumulate acc (allocation t debtor creditor)) 0 ts"

definition entry :: "matrix \<Rightarrow> string \<Rightarrow> string \<Rightarrow> decimal option" where
  "entry M d c = (case M d of None \<Rightarrow> None | Some row \<Rightarrow> row c)"

text \<open>
  \<open>matches ids E M\<close>: the matrix \<open>M\<close> has a row for every user and exactly the
  entries of the ordered pairs of distinct users, with the values \<open>E\<close> gives. \<open>returns P r\<close>: the result \<open>r\<close> is a
  value satisfying \<open>P\<close>, or the exception \<^verbatim>\<open>TypeError\<close>.
\<close>

definition matches :: "string list \<Rightarrow> (string \<Rightarrow> string \<Rightarrow> decimal) \<Rightarrow> matrix \<Rightarrow> bool" where
  "matches ids E M \<longleftrightarrow>
     (\<forall>d c. entry M d c =
        (if d \<in> set ids \<and> c \<in> set ids \<and> d \<noteq> c then Some (E d c) else None)) \<and>
     (\<forall>d \<in> set ids. M d \<noteq> None)"

definition returns :: "bool \<Rightarrow> ('a \<Rightarrow> bool) \<Rightarrow> error + 'a \<Rightarrow> bool" where
  "returns F P r = (case r of Inl e \<Rightarrow> e = TypeError \<and> F | Inr x \<Rightarrow> P x)"

lemma returns_Inr [simp]: "returns F P (Inr x) = P x"
  by (simp add: returns_def)

lemma returns_Inl [simp]: "returns F P (Inl e) \<longleftrightarrow> e = TypeError \<and> F"
  by (simp add: returns_def)

lemma returns_mono:
  "returns F P r \<Longrightarrow> (\<And>x. P x \<Longrightarrow> Q x) \<Longrightarrow> (F \<Longrightarrow> G) \<Longrightarrow> returns G Q r"
  by (cases r) auto

lemma returns_weaken:
  "returns F P r \<Longrightarrow> (\<And>x. P x \<Longrightarrow> Q x) \<Longrightarrow> returns F Q r"
  by (cases r) auto

definition raises :: "string list \<Rightarrow> transaction \<Rightarrow> bool" where
  "raises ids t \<longleftrightarrow> (\<exists>u \<in> set ids. float_share t u)"

lemma matches_cong:
  assumes "matches ids E M"
    and "\<And>d c. d \<in> set ids \<Longrightarrow> c \<in> set ids \<Longrightarrow> d \<noteq> c \<Longrightarrow> E d c = E' d c"
  shows "matches ids E' M"
  using assms by (simp add: matches_def)

lemma sum_positive_spec:
  "returns (\<exists>p \<in> set us. float_share t p)
     (\<lambda>r. r = foldl decimal_add acc (map (\<lambda>p. max (bal t p) 0) us))
     (sum_positive t us acc)"
proof (induction us arbitrary: acc)
  case Nil
  show ?case by simp
next
  case (Cons u us)
  from get_user_balance_cases [of t u] show ?case
  proof
    assume "\<not> float_share t u \<and> get_user_balance t u = Inr (bal t u)"
    then show ?thesis
      using Cons.IH [where acc = "decimal_add acc (max (bal t u) 0)"]
      by (auto elim!: returns_mono)
  next
    assume "float_share t u \<and> get_user_balance t u = Inl TypeError"
    then show ?thesis by simp
  qed
qed

lemma total_positive_spec:
  "returns (split_type t = EQUAL \<and> payers t = [])
     (\<lambda>r. r = total_positive_of t other_id) (total_positive t other_id)"
proof -
  have "returns (\<exists>p \<in> set (filter (\<lambda>uid. uid \<noteq> other_id) (participants t)). float_share t p)
     (\<lambda>r. r = total_positive_of t other_id) (total_positive t other_id)"
    using sum_positive_spec [where t = t and acc = 0
        and us = "filter (\<lambda>uid. uid \<noteq> other_id) (participants t)"]
    by (simp add: total_positive_def total_positive_of_def py_sum_def)
  then show ?thesis
    by (rule returns_mono) (auto simp: float_share_def)
qed

lemma matrix_add_spec:
  assumes "matches ids E M" and "other_id \<in> set ids" and "uid \<in> set ids" and "other_id \<noteq> uid"
  shows "\<exists>M'. matrix_add M other_id uid share = Inr M' \<and>
           matches ids (\<lambda>d c. if d = other_id \<and> c = uid then decimal_add (E d c) share else E d c) M'"
proof -
  from assms have e: "entry M other_id uid = Some (E other_id uid)"
    by (simp add: matches_def)
  then obtain row where row: "M other_id = Some row" "row uid = Some (E other_id uid)"
    by (auto simp: entry_def split: option.splits)
  define M' where "M' = M(other_id \<mapsto> row(uid \<mapsto> decimal_add (E other_id uid) share))"
  have run: "matrix_add M other_id uid share = Inr M'"
    by (simp add: matrix_add_def row M'_def)
  have "entry M' d c =
      (if d = other_id \<and> c = uid then Some (decimal_add (E d c) share) else entry M d c)" for d c
    using row by (auto simp: entry_def M'_def)
  moreover have "M' d \<noteq> None" if "M d \<noteq> None" for d
    using that by (simp add: M'_def)
  ultimately have "matches ids (\<lambda>d c. if d = other_id \<and> c = uid then decimal_add (E d c) share else E d c) M'"
    using assms by (auto simp: matches_def)
  with run show ?thesis by blast
qed

lemma allocation_self [simp]: "allocation t uid uid = None"
  by (simp add: allocation_def)

lemma allocate_spec:
  assumes "matches ids E M" and "uid \<in> set ids" and "other_id \<in> set ids"
  shows "returns (raises ids t) (matches ids (\<lambda>d c. if d = other_id \<and> c = uid
                     then accumulate (E d c) (allocation t d c) else E d c))
           (allocate t uid (bal t uid) other_id M)"
proof (cases "other_id = uid")
  case True
  have "matches ids (\<lambda>d c. if d = other_id \<and> c = uid
      then accumulate (E d c) (allocation t d c) else E d c) M"
    using assms(1) by (rule matches_cong) (simp add: True accumulate_def)
  then show ?thesis by (simp add: allocate_def True)
next
  case ne: False
  have same: "matches ids (\<lambda>d c. if d = other_id \<and> c = uid
      then accumulate (E d c) (allocation t d c) else E d c) M"
    if "allocation t other_id uid = None"
    using assms(1) by (rule matches_cong) (simp add: that accumulate_def)
  from get_user_balance_cases [of t other_id] show ?thesis
  proof
    assume "float_share t other_id \<and> get_user_balance t other_id = Inl TypeError"
    then show ?thesis using ne assms(3) by (auto simp: allocate_def raises_def)
  next
    assume "\<not> float_share t other_id \<and> get_user_balance t other_id = Inr (bal t other_id)"
    then have ob: "get_user_balance t other_id = Inr (bal t other_id)" ..
    show ?thesis
    proof (cases "bal t other_id < 0 \<and> 0 < bal t uid")
      case False
      then have "allocation t other_id uid = None" by (auto simp: allocation_def)
      from same [OF this] show ?thesis using ne ob False by (auto simp: allocate_def)
    next
      case sign: True
      show ?thesis
      proof (cases "total_positive t other_id")
        case (Inl e)
        then have "split_type t = EQUAL \<and> payers t = []"
          using total_positive_spec [of t other_id] by simp
        then have "bal t uid = 0" by (simp add: bal_no_payers)
        then show ?thesis using sign by simp
      next
        case (Inr tp)
        then have tp: "tp = total_positive_of t other_id"
          using total_positive_spec [of t other_id] by simp
        show ?thesis
        proof (cases "0 < tp")
          case False
          then have "allocation t other_id uid = None" by (simp add: allocation_def tp)
          from same [OF this] show ?thesis
            using ne ob sign Inr False by (simp add: allocate_def)
        next
          case True
          define share where "share = decimal_mul (context_round (bal t uid / tp))
              (decimal_abs (bal t other_id))"
          have al: "allocation t other_id uid = Some share"
            using ne sign True by (simp add: allocation_def tp share_def)
          have run: "allocate t uid (bal t uid) other_id M = matrix_add M other_id uid share"
            using ne ob sign Inr True
            by (simp add: allocate_def decimal_truediv_def share_def)
          from matrix_add_spec [OF assms(1) assms(3) assms(2) ne, of share]
          obtain M' where M': "matrix_add M other_id uid share = Inr M'"
            "matches ids (\<lambda>d c. if d = other_id \<and> c = uid
               then decimal_add (E d c) share else E d c) M'" by blast
          have "matches ids (\<lambda>d c. if d = other_id \<and> c = uid
              then accumulate (E d c) (allocation t d c) else E d c) M'"
            using M'(2) by (rule matches_cong) (simp add: al accumulate_def)
          then show ?thesis by (simp add: run M'(1))
        qed
      qed
    qed
  qed
qed

lemma foldM_allocate:
  assumes "matches ids E M" and "uid \<in> set ids" and "set os \<subseteq> set ids" and "distinct os"
  shows "returns (raises ids t) (matches ids (\<lambda>d c. if c = uid \<and> d \<in> set os
                     then accumulate (E d c) (allocation t d c) else E d c))
           (foldM (allocate t uid (bal t uid)) os M)"
  using assms
proof (induction os arbitrary: E M)
  case Nil
  then show ?case by simp
next
  case (Cons other_id os)
  let ?E1 = "\<lambda>d c. if d = other_id \<and> c = uid
      then accumulate (E d c) (allocation t d c) else E d c"
  have step: "returns (raises ids t) (matches ids ?E1) (allocate t uid (bal t uid) other_id M)"
    using Cons.prems by (intro allocate_spec) simp_all
  show ?case
  proof (cases "allocate t uid (bal t uid) other_id M")
    case (Inl e)
    then show ?thesis using step by simp
  next
    case (Inr M1)
    then have m1: "matches ids ?E1 M1" using step by simp
    have "returns (raises ids t) (matches ids (\<lambda>d c. if c = uid \<and> d \<in> set os
        then accumulate (?E1 d c) (allocation t d c) else ?E1 d c))
        (foldM (allocate t uid (bal t uid)) os M1)"
      using Cons.prems by (intro Cons.IH [OF m1]) simp_all
    then have "returns (raises ids t) (matches ids (\<lambda>d c. if c = uid \<and> d \<in> set (other_id # os)
        then accumulate (E d c) (allocation t d c) else E d c))
        (foldM (allocate t uid (bal t uid)) os M1)"
    proof (rule returns_weaken)
      fix M'
      assume "matches ids (\<lambda>d c. if c = uid \<and> d \<in> set os
        then accumulate (?E1 d c) (allocation t d c) else ?E1 d c) M'"
      then show "matches ids (\<lambda>d c. if c = uid \<and> d \<in> set (other_id # os)
        then accumulate (E d c) (allocation t d c) else E d c) M'"
        by (rule matches_cong) (use Cons.prems(4) in auto)
    qed
    then show ?thesis by (simp add: Inr)
  qed
qed

lemma process_user_spec:
  assumes "matches ids E M" and "uid \<in> set ids" and "distinct ids"
  shows "returns (raises ids t) (matches ids (\<lambda>d c. if c = uid
                     then accumulate (E d c) (allocation t d c) else E d c))
           (process_user ids t uid M)"
proof -
  from get_user_balance_cases [of t uid] show ?thesis
  proof
    assume "float_share t uid \<and> get_user_balance t uid = Inl TypeError"
    then show ?thesis using assms(2) by (auto simp: process_user_def raises_def)
  next
    assume "\<not> float_share t uid \<and> get_user_balance t uid = Inr (bal t uid)"
    then have ub: "get_user_balance t uid = Inr (bal t uid)" ..
    show ?thesis
    proof (cases "bal t uid = 0")
      case True
      then have "allocation t d uid = None" for d by (simp add: allocation_def)
      then have "matches ids (\<lambda>d c. if c = uid
          then accumulate (E d c) (allocation t d c) else E d c) M"
        using assms(1) by (intro matches_cong [OF assms(1)]) (simp add: accumulate_def)
      then show ?thesis using ub True by (simp add: process_user_def)
    next
      case False
      have "returns (raises ids t) (matches ids (\<lambda>d c. if c = uid \<and> d \<in> set ids
          then accumulate (E d c) (allocation t d c) else E d c))
          (foldM (allocate t uid (bal t uid)) ids M)"
        using assms by (intro foldM_allocate) simp_all
      then have "returns (raises ids t) (matches ids (\<lambda>d c. if c = uid
          then accumulate (E d c) (allocation t d c) else E d c))
          (foldM (allocate t uid (bal t uid)) ids M)"
      proof (rule returns_weaken)
        fix M'
        assume "matches ids (\<lambda>d c. if c = uid \<and> d \<in> set ids
          then accumulate (E d c) (allocation t d c) else E d c) M'"
        then show "matches ids (\<lambda>d c. if c = uid
          then accumulate (E d c) (allocation t d c) else E d c) M'"
          by (rule matches_cong) auto
      qed
      then show ?thesis using ub False by (simp add: process_user_def)
    qed
  qed
qed

lemma foldM_process_user:
  assumes "matches ids E M" and "set us \<subseteq> set ids" and "distinct us" and "distinct ids"
  shows "returns (raises ids t) (matches ids (\<lambda>d c. if c \<in> set us
                     then accumulate (E d c) (allocation t d c) else E d c))
           (foldM (process_user ids t) us M)"
  using assms
proof (induction us arbitrary: E M)
  case Nil
  then show ?case by simp
next
  case (Cons uid us)
  let ?E1 = "\<lambda>d c. if c = uid then accumulate (E d c) (allocation t d c) else E d c"
  have step: "returns (raises ids t) (matches ids ?E1) (process_user ids t uid M)"
    using Cons.prems by (intro process_user_spec) simp_all
  show ?case
  proof (cases "process_user ids t uid M")
    case (Inl e)
    then show ?thesis using step by simp
  next
    case (Inr M1)
    then have m1: "matches ids ?E1 M1" using step by simp
    have "returns (raises ids t) (matches ids (\<lambda>d c. if c \<in> set us
        then accumulate (?E1 d c) (allocation t d c) else ?E1 d c))
        (foldM (process_user ids t) us M1)"
      using Cons.prems by (intro Cons.IH [OF m1]) simp_all
    then have "returns (raises ids t) (matches ids (\<lambda>d c. if c \<in> set (uid # us)
        then accumulate (E d c) (allocation t d c) else E d c))
        (foldM (process_user ids t) us M1)"
    proof (rule returns_weaken)
      fix M'
      assume "matches ids (\<lambda>d c. if c \<in> set us
        then accumulate (?E1 d c) (allocation t d c) else ?E1 d c) M'"
      then show "matches ids (\<lambda>d c. if c \<in> set (uid # us)
        then accumulate (E d c) (allocation t d c) else E d c) M'"
        by (rule matches_cong) (use Cons.prems(3) in auto)
    qed
    then show ?thesis by (simp add: Inr)
  qed
qed

lemma process_transaction_spec:
  assumes "matches ids E M" and "distinct ids"
  shows "returns (raises ids t) (matches ids (\<lambda>d c. accumulate (E d c) (allocation t d c)))
           (process_transaction ids t M)"
proof -
  have "returns (raises ids t) (matches ids (\<lambda>d c. if c \<in> set ids
      then accumulate (E d c) (allocation t d c) else E d c))
      (foldM (process_user ids t) ids M)"
    using assms by (intro foldM_process_user) simp_all
  then show ?thesis
    unfolding process_transaction_def
  proof (rule returns_weaken)
    fix M'
    assume "matches ids (\<lambda>d c. if c \<in> set ids
      then accumulate (E d c) (allocation t d c) else E d c) M'"
    then show "matches ids (\<lambda>d c. accumulate (E d c) (allocation t d c)) M'"
      by (rule matches_cong) auto
  qed
qed

lemma foldM_process_transaction:
  assumes "matches ids E M" and "distinct ids"
  shows "returns (\<exists>t \<in> set ts. raises ids t) (matches ids
            (\<lambda>d c. foldl (\<lambda>acc t. accumulate acc (allocation t d c)) (E d c) ts))
           (foldM (process_transaction ids) ts M)"
  using assms(1)
proof (induction ts arbitrary: E M)
  case Nil
  then show ?case by simp
next
  case (Cons t ts)
  have step: "returns (raises ids t) (matches ids (\<lambda>d c. accumulate (E d c) (allocation t d c)))
      (process_transaction ids t M)"
    using Cons.prems assms(2) by (rule process_transaction_spec)
  show ?case
  proof (cases "process_transaction ids t M")
    case (Inl e)
    then show ?thesis using step by simp
  next
    case (Inr M1)
    then have "matches ids (\<lambda>d c. accumulate (E d c) (allocation t d c)) M1"
      using step by simp
    from Cons.IH [OF this] show ?thesis by (auto simp: Inr elim!: returns_mono)
  qed
qed

lemma map_of_keys:
  "map_of (map (\<lambda>k. (k, f k)) ks) x = (if x \<in> set ks then Some (f x) else None)"
  by (induction ks) auto

lemma initial_matrix_matches: "matches ids (\<lambda>d c. 0) (initial_matrix ids)"
  by (auto simp: matches_def entry_def initial_matrix_def map_of_keys)

lemma calculate_balances_spec:
  assumes "distinct (user_ids m)"
  shows "returns (\<exists>t \<in> set (map snd (transactions m)). raises (user_ids m) t)
           (matches (user_ids m) (pairwise_debt (map snd (transactions m))))
           (calculate_balances m)"
proof -
  have "pairwise_debt (map snd (transactions m))
      = (\<lambda>d c. foldl (\<lambda>acc t. accumulate acc (allocation t d c)) 0 (map snd (transactions m)))"
    by (intro ext) (simp add: pairwise_debt_def)
  then show ?thesis
    using foldM_process_transaction [OF initial_matrix_matches assms, of "map snd (transactions m)"]
    by (simp add: calculate_balances_def)
qed

lemma allocation_nonneg:
  assumes "allocation t d c = Some a"
  shows "0 \<le> a"
proof -
  from assms have pos: "0 < bal t c" "0 < total_positive_of t d"
    and a: "a = decimal_mul (context_round (bal t c / total_positive_of t d))
        (decimal_abs (bal t d))"
    by (auto simp: allocation_def split: if_splits)
  have "0 \<le> context_round (bal t c / total_positive_of t d)"
    using pos by simp
  moreover have "0 \<le> decimal_abs (bal t d)"
    unfolding decimal_abs_def by simp
  ultimately have "0 \<le> context_round (bal t c / total_positive_of t d) * decimal_abs (bal t d)"
    by (rule mult_nonneg_nonneg)
  then show ?thesis unfolding a decimal_mul_def by (simp only: context_round_sign)
qed

lemma accumulate_nonneg: "0 \<le> acc \<Longrightarrow> 0 \<le> accumulate acc (allocation t d c)"
  using allocation_nonneg [of t d c]
  by (cases "allocation t d c") (simp_all add: accumulate_def decimal_add_def)

lemma foldl_accumulate_nonneg:
  "0 \<le> acc \<Longrightarrow> 0 \<le> foldl (\<lambda>acc t. accumulate acc (allocation t d c)) acc ts"
  by (induction ts arbitrary: acc) (simp_all add: accumulate_nonneg)

lemma pairwise_debt_nonneg: "0 \<le> pairwise_debt ts d c"
  by (simp add: pairwise_debt_def foldl_accumulate_nonneg)

text \<open>
  The ledgers the program can be in: the one \<^verbatim>\<open>__init__\<close> or \<^verbatim>\<open>load_from_file\<close>
  builds (dictionaries of users and transactions, an empty cache marked invalid), and
  those the operations of \<^verbatim>\<open>ExpenseManager\<close> lead to from there.
\<close>

inductive reachable :: "expense_manager \<Rightarrow> bool" where
  loaded: "distinct (map fst us) \<Longrightarrow> distinct (map fst ts) \<Longrightarrow>
     reachable \<lparr>users = us, transactions = ts, user_transactions = ut,
       balance_cache = Map.empty, cache_valid = False\<rparr>"
| after_add_user: "reachable m \<Longrightarrow> reachable (snd (add_user m uid nm em))"
| after_add_transaction: "reachable m \<Longrightarrow>
     reachable (snd (add_transaction m tid now descr pays parts st details))"
| after_get_balances: "reachable m \<Longrightarrow> reachable (snd (get_balances m))"
| after_get_user_balance: "reachable m \<Longrightarrow> reachable (snd (manager_get_user_balance m uid))"

lemma map_fst_dict_set:
  "map fst (dict_set kvs k v) = (if k \<in> fst ` set kvs then map fst kvs else map fst kvs @ [k])"
  by (induction kvs) (auto simp: rev_image_eqI)

lemma distinct_dict_set: "distinct (map fst kvs) \<Longrightarrow> distinct (map fst (dict_set kvs k v))"
  by (simp add: map_fst_dict_set)

lemma calculate_balances_cache [simp]:
  "calculate_balances (m\<lparr>balance_cache := b, cache_valid := v\<rparr>) = calculate_balances m"
  by (simp add: calculate_balances_def user_ids_def)

definition cache_fresh :: "expense_manager \<Rightarrow> bool" where
  "cache_fresh m \<longleftrightarrow>
     distinct (user_ids m) \<and> (cache_valid m \<longrightarrow> calculate_balances m = Inr (balance_cache m))"

lemma cache_fresh_get_balances: "cache_fresh m \<Longrightarrow> cache_fresh (snd (get_balances m))"
  by (auto simp: cache_fresh_def get_balances_def user_ids_def split: sum.splits)

lemma reachable_cache_fresh: "reachable m \<Longrightarrow> cache_fresh m"
proof (induction rule: reachable.induct)
  case (loaded us ts ut)
  then show ?case by (simp add: cache_fresh_def user_ids_def)
next
  case (after_add_user m uid nm em)
  then show ?case
    by (simp add: cache_fresh_def add_user_def user_ids_def Let_def distinct_dict_set)
next
  case (after_add_transaction m tid now descr pays parts st details)
  then show ?case
    by (auto simp: cache_fresh_def add_transaction_def user_ids_def
        split: option.splits sum.splits)
next
  case (after_get_balances m)
  from after_get_balances.IH show ?case by (rule cache_fresh_get_balances)
next
  case (after_get_user_balance m uid)
  from after_get_user_balance.IH show ?case
    using cache_fresh_get_balances [of m]
    by (auto simp: manager_get_user_balance_def Let_def split: prod.splits sum.splits option.splits)
qed

lemma get_balances_fresh:
  "cache_fresh m \<Longrightarrow> fst (get_balances m) = calculate_balances m"
  by (auto simp: cache_fresh_def get_balances_def split: sum.splits)

text \<open>
  Claim C5. In every reachable ledger, the matrix \<^verbatim>\<open>get_balances\<close> returns has an
  entry exactly for the ordered pairs of distinct users (the diagonal is never set). The
  entry of debtor and creditor is the accumulation, over the transactions in order and
  from 0, of \<open>(balance(creditor) / total_positive(debtor)) * |balance(debtor)|\<close> for
  the transactions in which the debtor's balance is negative, the creditor's positive
  and \<open>total_positive(debtor)\<close>, the sum of \<open>max(balance(p), 0)\<close> over the participants
  \<open>p\<close> other than the debtor, is positive; a transaction in which it is 0 adds nothing.
  Every entry is at least 0. The only exception that can come out is the
  \<^verbatim>\<open>TypeError\<close> of a transaction without payers: no division fails.
\<close>

theorem pairwise_matrix:
  assumes "reachable m"
  shows "(\<forall>M. fst (get_balances m) = Inr M \<longrightarrow>
            (\<forall>d c. entry M d c =
               (if d \<in> set (user_ids m) \<and> c \<in> set (user_ids m) \<and> d \<noteq> c
                then Some (pairwise_debt (map snd (transactions m)) d c) else None))) \<and>
         (\<forall>d c. 0 \<le> pairwise_debt (map snd (transactions m)) d c) \<and>
         (\<forall>e. fst (get_balances m) = Inl e \<longrightarrow>
            e = TypeError \<and> (\<exists>t \<in> set (map snd (transactions m)). raises (user_ids m) t)) \<and>
         ((\<forall>t \<in> set (map snd (transactions m)). payers t \<noteq> []) \<longrightarrow>
            (\<exists>M. fst (get_balances m) = Inr M))"
proof -
  have fresh: "cache_fresh m" using assms by (rule reachable_cache_fresh)
  then have d: "distinct (user_ids m)" by (simp add: cache_fresh_def)
  have g: "fst (get_balances m) = calculate_balances m"
    using fresh by (rule get_balances_fresh)
  note spec = calculate_balances_spec [OF d]
  have 1: "\<forall>M. fst (get_balances m) = Inr M \<longrightarrow>
      (\<forall>d c. entry M d c =
         (if d \<in> set (user_ids m) \<and> c \<in> set (user_ids m) \<and> d \<noteq> c
          then Some (pairwise_debt (map snd (transactions m)) d c) else None))"
    using spec by (auto simp: g matches_def)
  have 3: "\<forall>e. fst (get_balances m) = Inl e \<longrightarrow>
      e = TypeError \<and> (\<exists>t \<in> set (map snd (transactions m)). raises (user_ids m) t)"
    using spec by (auto simp: g)
  have 4: "(\<forall>t \<in> set (map snd (transactions m)). payers t \<noteq> []) \<longrightarrow>
      (\<exists>M. fst (get_balances m) = Inr M)"
  proof
    assume p: "\<forall>t \<in> set (map snd (transactions m)). payers t \<noteq> []"
    show "\<exists>M. fst (get_balances m) = Inr M"
    proof (cases "calculate_balances m")
      case (Inl e)
      then have "\<exists>t \<in> set (map snd (transactions m)). raises (user_ids m) t"
        using spec by simp
      then show ?thesis using p by (auto simp: raises_def float_share_def)
    next
      case (Inr M)
      then show ?thesis by (simp add: g)
    qed
  qed
  show ?thesis using 1 3 4 by (simp add: pairwise_debt_nonneg)
qed

lemma reachable_init: "reachable ExpenseManager_init"
  unfolding ExpenseManager_init_def by (rule reachable.loaded) simp_all

lemma reachable_dinner_ledger: "reachable dinner_ledger"
  unfolding dinner_ledger_def dinner_users_def
  by (intro reachable.after_add_transaction reachable.after_add_user reachable_init)

lemma dinner_bal [simp]:
  "bal dinner ''A'' = 60" "bal dinner ''B'' = - 30" "bal dinner ''C'' = - 30"
  using dinner_balances by (auto dest: get_user_balance_Inr)

lemma dinner_debts:
  "pairwise_debt [dinner] ''B'' ''A'' = 30"
  "pairwise_debt [dinner] ''C'' ''A'' = 30"
  "pairwise_debt [dinner] ''A'' ''B'' = 0"
  "pairwise_debt [dinner] ''B'' ''C'' = 0"
  by (simp_all add: pairwise_debt_def accumulate_def allocation_def total_positive_of_def
      py_sum_def decimal_add_def decimal_mul_def decimal_abs_def)

theorem pairwise_matrix_witness:
  "\<exists>M. fst (get_balances dinner_ledger) = Inr M \<and>
       entry M ''B'' ''A'' = Some 30 \<and> entry M ''C'' ''A'' = Some 30 \<and>
       entry M ''A'' ''B'' = Some 0 \<and> entry M ''B'' ''C'' = Some 0 \<and>
       entry M ''A'' ''A'' = None \<and> entry M ''A'' ''Z'' = None"
proof -
  note th = pairwise_matrix [OF reachable_dinner_ledger, unfolded dinner_transactions dinner_ledger_ids]
  from th obtain M where M: "fst (get_balances dinner_ledger) = Inr M" by auto
  with th have "entry M d c =
      (if d \<in> set [''A'', ''B'', ''C''] \<and> c \<in> set [''A'', ''B'', ''C''] \<and> d \<noteq> c
       then Some (pairwise_debt [dinner] d c) else None)" for d c
    by blast
  then show ?thesis using M by (simp add: dinner_debts)
qed

section \<open>The balance cache\<close>

lemma dinner_total_positive:
  "total_positive dinner ''B'' = Inr 60"
  "total_positive dinner ''C'' = Inr 60"
  by (simp_all add: total_positive_def dinner_balances decimal_add_def)

lemma dinner_calculate: "\<exists>M. calculate_balances dinner_ledger = Inr M"
  by (simp add: calculate_balances_def dinner_ledger_ids dinner_transactions
      process_transaction_def process_user_def dinner_balances allocate_def
      dinner_total_positive decimal_truediv_def decimal_mul_def decimal_abs_def
      matrix_add_def initial_matrix_def decimal_add_def)

lemma dinner_ledger_stale: "\<not> cache_valid dinner_ledger"
  by (simp add: dinner_ledger_def add_transaction_def dinner_users_ids dinner_init)

text \<open>
  Claim C6. When \<^verbatim>\<open>get_balances\<close> has returned a matrix, calling it again on the
  ledger it left returns the same matrix and leaves the ledger as it is; the flag is
  set, and the result of that second call is the cached matrix whatever the users and
  transactions are, so it is not computed from them. \<^verbatim>\<open>add_user\<close> and every
  successful \<^verbatim>\<open>add_transaction\<close> clear the flag; with the flag cleared
  \<^verbatim>\<open>get_balances\<close> is the computation from scratch; and in every reachable ledger
  \<^verbatim>\<open>get_balances\<close> gives what the computation from scratch gives, never a stale
  matrix.
\<close>

theorem get_balances_cached:
  "(\<forall>b m'. get_balances m = (Inr b, m') \<longrightarrow>
      get_balances m' = (Inr b, m') \<and> cache_valid m' \<and>
      (\<forall>us ts ut. fst (get_balances (m'\<lparr>users := us, transactions := ts,
                                        user_transactions := ut\<rparr>)) = Inr b)) \<and>
   \<not> cache_valid (snd (add_user m uid nm em)) \<and>
   (\<forall>t. fst (add_transaction m tid now descr pays parts st details) = Inr t \<longrightarrow>
      \<not> cache_valid (snd (add_transaction m tid now descr pays parts st details))) \<and>
   (\<not> cache_valid m \<longrightarrow> fst (get_balances m) = calculate_balances m) \<and>
   (reachable m \<longrightarrow> fst (get_balances m) = calculate_balances m)"
proof -
  have 1: "\<forall>b m'. get_balances m = (Inr b, m') \<longrightarrow>
      get_balances m' = (Inr b, m') \<and> cache_valid m' \<and>
      (\<forall>us ts ut. fst (get_balances (m'\<lparr>users := us, transactions := ts,
                                        user_transactions := ut\<rparr>)) = Inr b)"
    by (auto simp: get_balances_def split: if_splits sum.splits)
  have 2: "\<not> cache_valid (snd (add_user m uid nm em))"
    by (simp add: add_user_def Let_def)
  have 3: "\<forall>t. fst (add_transaction m tid now descr pays parts st details) = Inr t \<longrightarrow>
      \<not> cache_valid (snd (add_transaction m tid now descr pays parts st details))"
    by (auto simp: add_transaction_def split: option.splits sum.splits)
  have 4: "\<not> cache_valid m \<longrightarrow> fst (get_balances m) = calculate_balances m"
    by (auto simp: get_balances_def split: sum.splits)
  have 5: "reachable m \<longrightarrow> fst (get_balances m) = calculate_balances m"
    using reachable_cache_fresh get_balances_fresh by blast
  from 1 2 3 4 5 show ?thesis by blast
qed

theorem get_balances_cached_witness:
  "\<exists>b. fst (get_balances dinner_ledger) = Inr b \<and>
       get_balances (snd (get_balances dinner_ledger)) = (Inr b, snd (get_balances dinner_ledger)) \<and>
       cache_valid (snd (get_balances dinner_ledger)) \<and>
       \<not> cache_valid dinner_ledger \<and>
       fst (get_balances dinner_ledger) = calculate_balances dinner_ledger"
proof -
  from dinner_calculate obtain M where M: "calculate_balances dinner_ledger = Inr M" ..
  have g: "get_balances dinner_ledger = (Inr M, snd (get_balances dinner_ledger))"
    using M dinner_ledger_stale by (simp add: get_balances_def)
  note th = get_balances_cached [of dinner_ledger]
  from th g have "get_balances (snd (get_balances dinner_ledger))
      = (Inr M, snd (get_balances dinner_ledger)) \<and> cache_valid (snd (get_balances dinner_ledger))"
    by blast
  moreover from th dinner_ledger_stale
  have "fst (get_balances dinner_ledger) = calculate_balances dinner_ledger" by blast
  ultimately show ?thesis using M dinner_ledger_stale by auto
qed

section \<open>The balances of one user\<close>

text \<open>
  The per-counterparty view the specification describes, read off a matrix:
  \<open>amount M d c\<close> is what \<open>d\<close> owes \<open>c\<close>, and the view of a user holds, for every
  other user, what that user owes the queried one minus what the queried one owes
  back, where the two differ.
\<close>

definition amount :: "matrix \<Rightarrow> string \<Rightarrow> string \<Rightarrow> decimal" where
  "amount M d c = (case entry M d c of None \<Rightarrow> 0 | Some v \<Rightarrow> v)"

definition net_view :: "matrix \<Rightarrow> string list \<Rightarrow> string \<Rightarrow> (string \<rightharpoonup> decimal)" where
  "net_view M ids uid =
     (\<lambda>other_id.
        if other_id \<in> set ids \<and> other_id \<noteq> uid \<and> amount M other_id uid \<noteq> amount M uid other_id
        then Some (decimal_sub (amount M other_id uid) (amount M uid other_id))
        else None)"

lemma decimal_neg_sub: "decimal_neg (decimal_sub a b) = decimal_sub b a"
proof -
  have "context_round (b - a) = - context_round (a - b)"
    using context_round_minus [of "a - b"] by simp
  then show ?thesis by (simp add: decimal_neg_def decimal_sub_def)
qed

lemma foldl_net_entry:
  "foldl (net_entry owed owes uid) net ids =
     (\<lambda>other_id.
        if other_id \<in> set ids \<and> other_id \<noteq> uid \<and> dict_get owed other_id 0 \<noteq> dict_get owes other_id 0
        then Some (decimal_sub (dict_get owed other_id 0) (dict_get owes other_id 0))
        else net other_id)"
proof (induction ids arbitrary: net)
  case Nil
  show ?case by simp
next
  case (Cons o_id ids)
  show ?case
    by (simp add: Cons.IH)
      (auto simp: net_entry_def Let_def decimal_neg_sub fun_eq_iff)
qed

lemma owed_by_spec:
  assumes "\<forall>o_id \<in> set ids. o_id \<noteq> uid \<longrightarrow> (\<exists>row. M o_id = Some row)"
  shows "\<exists>d. owed_by M uid ids = Inr d \<and>
           (\<forall>o_id. d o_id = (if o_id \<in> set ids \<and> o_id \<noteq> uid
                              then Some (case entry M o_id uid of None \<Rightarrow> 0 | Some a \<Rightarrow> a)
                              else None))"
  using assms
proof (induction ids)
  case Nil
  show ?case by simp
next
  case (Cons o_id ids)
  then obtain d where d: "owed_by M uid ids = Inr d"
    "\<forall>x. d x = (if x \<in> set ids \<and> x \<noteq> uid
        then Some (case entry M x uid of None \<Rightarrow> 0 | Some a \<Rightarrow> a) else None)"
    by auto
  show ?case
  proof (cases "o_id = uid")
    case True
    then show ?thesis using d by auto
  next
    case False
    then obtain row where row: "M o_id = Some row" using Cons.prems by auto
    then show ?thesis using d False by (auto simp: entry_def)
  qed
qed

lemma user_view_spec:
  assumes "matches ids E M" and "\<forall>d c. 0 \<le> E d c" and "uid \<in> set ids"
  shows "\<exists>row d. M uid = Some row \<and> owed_by M uid ids = Inr d \<and>
           foldl (net_entry (positive_entries d) (positive_entries row) uid) Map.empty ids
             = net_view M ids uid"
proof -
  from assms(1,3) obtain row where row: "M uid = Some row"
    by (auto simp: matches_def)
  have rows: "\<forall>o_id \<in> set ids. o_id \<noteq> uid \<longrightarrow> (\<exists>r. M o_id = Some r)"
    using assms(1) by (auto simp: matches_def)
  from owed_by_spec [OF rows] obtain d where d: "owed_by M uid ids = Inr d"
    "\<forall>o_id. d o_id = (if o_id \<in> set ids \<and> o_id \<noteq> uid
        then Some (case entry M o_id uid of None \<Rightarrow> 0 | Some a \<Rightarrow> a) else None)"
    by blast
  have nonneg: "0 \<le> amount M x y" for x y
    using assms(1,2) by (auto simp: matches_def amount_def)
  have owed: "dict_get (positive_entries d) o_id 0 = amount M o_id uid"
    if "o_id \<in> set ids" "o_id \<noteq> uid" for o_id
    using that d(2) nonneg [of o_id uid]
    by (auto simp: dict_get_def positive_entries_def amount_def split: option.splits)
  have owes: "dict_get (positive_entries row) o_id 0 = amount M uid o_id" for o_id
    using row nonneg [of uid o_id]
    by (auto simp: dict_get_def positive_entries_def amount_def entry_def split: option.splits)
  have "foldl (net_entry (positive_entries d) (positive_entries row) uid) Map.empty ids
      = net_view M ids uid"
    by (auto simp: foldl_net_entry net_view_def owed owes fun_eq_iff)
  with row d(1) show ?thesis by blast
qed

lemma get_balances_user_ids [simp]: "user_ids (snd (get_balances m)) = user_ids m"
  by (auto simp: get_balances_def user_ids_def split: sum.splits)


lemma dinner_matrix:
  "\<exists>M. fst (get_balances dinner_ledger) = Inr M \<and>
       matches [''A'', ''B'', ''C''] (pairwise_debt [dinner]) M"
proof -
  from dinner_calculate obtain M where M: "calculate_balances dinner_ledger = Inr M" ..
  have "distinct (user_ids dinner_ledger)" by (simp add: dinner_ledger_ids)
  from calculate_balances_spec [OF this] M
  have "matches [''A'', ''B'', ''C''] (pairwise_debt [dinner]) M"
    by (simp add: dinner_ledger_ids dinner_transactions)
  moreover have "fst (get_balances dinner_ledger) = Inr M"
    using M dinner_ledger_stale by (simp add: get_balances_def)
  ultimately show ?thesis by blast
qed

lemma dinner_debts_more:
  "pairwise_debt [dinner] ''A'' ''C'' = 0"
  "pairwise_debt [dinner] ''C'' ''B'' = 0"
  by (simp_all add: pairwise_debt_def accumulate_def allocation_def)


section \<open>Conservation of money in a transaction\<close>

lemma share_value_nonparticipant:
  "uid \<notin> set (participants t) \<Longrightarrow> share_value t uid = 0"
  by (simp add: share_value_def get_user_share_def number_value_def)

lemma payment_nonpayer:
  "uid \<notin> set (map fst (payers t)) \<Longrightarrow> get_user_payment t uid = 0"
proof -
  assume "uid \<notin> set (map fst (payers t))"
  then have "map_of (payers t) uid = None" by (simp add: map_of_eq_None_iff)
  then show ?thesis by (simp add: get_user_payment_def)
qed

lemma validate_payments_positive:
  assumes "validate t = None" and "p \<in> set (payers t)"
  shows "0 < snd p"
  using assms validate_invariant [of t] by (auto simp: invariant_violated_def not_le)

lemma payment_nonneg:
  assumes "validate t = None"
  shows "0 \<le> get_user_payment t uid"
proof (cases "map_of (payers t) uid")
  case None
  then show ?thesis by (simp add: get_user_payment_def)
next
  case (Some a)
  then have "(uid, a) \<in> set (payers t)" by (rule map_of_SomeD)
  from validate_payments_positive [OF assms this] show ?thesis
    using Some by (simp add: get_user_payment_def)
qed

lemma sum_payments:
  assumes "distinct (map fst (payers t))"
  shows "(\<Sum>u \<in> set (map fst (payers t)). get_user_payment t u) = sum_list (map snd (payers t))"
proof -
  have "(\<Sum>u \<in> set (map fst (payers t)). get_user_payment t u)
      = sum_list (map (get_user_payment t) (map fst (payers t)))"
    using assms by (simp only: sum_list_distinct_conv_sum_set)
  also have "map (get_user_payment t) (map fst (payers t)) = map snd (payers t)"
    using payment_of_payer [OF assms] by (auto simp: map_eq_conv)
  finally show ?thesis .
qed

lemma sum_shares:
  assumes "distinct (participants t)"
  shows "(\<Sum>u \<in> set (participants t). share_value t u) = sum_of_shares t"
  using assms by (simp add: sum_of_shares_def sum_list_distinct_conv_sum_set)



text \<open>
  The claim as stated fails for a validated PERCENTAGE transaction: 10000 paid by A,
  split 50.01 and 50 per cent between A and B (the details sum to 100.01, within 0.01
  of 100), gives the balances 4999 and -5000, which sum to -1. It fails as well for the
  EQUAL transaction without participants (the balance of the payer is the 90 paid) and
  for the one with a repeated participant (60 and -30).
\<close>

definition percent_split :: transaction where
  "percent_split = \<lparr>transaction_id = ''t8'', description = ''rent'', date = 0,
     payers = [(''A'', 10000)], participants = [''A'', ''B''], split_type = PERCENTAGE,
     split_details = [(''A'', 5001 / 100), (''B'', 50)]\<rparr>"

lemma percent_split_fields [simp]:
  "payers percent_split = [(''A'', 10000)]"
  "participants percent_split = [''A'', ''B'']"
  "split_type percent_split = PERCENTAGE"
  "split_details percent_split = [(''A'', 5001 / 100), (''B'', 50)]"
  by (simp_all add: percent_split_def)

lemma context_round_hundredths [simp]:
  "numeral k < (10::int) ^ 28 \<Longrightarrow> context_round (numeral k / 100) = numeral k / 100"
  using context_round_exact [of "numeral k" "- 2"] by (simp add: pow10_def)

lemma context_round_ten_thousandths [simp]:
  "numeral k < (10::int) ^ 28 \<Longrightarrow> context_round (numeral k / 10000) = numeral k / 10000"
  using context_round_exact [of "numeral k" "- 4"] by (simp add: pow10_def)

lemma context_round_cent [simp]: "context_round (1 / 100) = 1 / 100"
  using context_round_exact [of 1 "- 2"] by (simp add: pow10_def)

lemma context_round_half [simp]: "context_round (1 / 2) = 1 / 2"
  using context_round_exact [of 5 "- 1"] by (simp add: pow10_def)

lemma percent_split_total: "total_amount percent_split = 10000"
  by (simp add: total_amount_def py_sum_def decimal_add_def)

lemma percent_split_valid: "validate percent_split = None"
  by (simp add: validate_def py_sum_def decimal_add_def decimal_sub_def decimal_abs_def
      epsilon_def)

lemma percent_split_balances:
  "get_user_balance percent_split ''A'' = Inr 4999"
  "get_user_balance percent_split ''B'' = Inr (- 5000)"
  by (simp_all add: get_user_balance_def get_user_share_def get_user_payment_def
      percent_split_total decimal_truediv_def decimal_mul_def decimal_sub_def)

lemma nobody_valid: "validate nobody = None"
  by (simp add: validate_def)

lemma nobody_balance: "get_user_balance nobody ''A'' = Inr 90"
  by (simp add: get_user_balance_def get_user_share_def get_user_payment_def decimal_sub_def)

lemma doubled_fields [simp]:
  "payers doubled = [(''A'', 90)]"
  "participants doubled = [''A'', ''A'', ''B'']"
  "split_type doubled = EQUAL"
  "split_details doubled = []"
  by (simp_all add: doubled_def)

lemma doubled_balances:
  "get_user_balance doubled ''A'' = Inr 60"
  "get_user_balance doubled ''B'' = Inr (- 30)"
  by (simp_all add: get_user_balance_def get_user_share_def get_user_payment_def
      total_amount_def py_sum_def decimal_add_def decimal_truediv_def decimal_sub_def)


section \<open>Settlements\<close>

lemma settle_step_Some:
  assumes "settle_step (b, i, j, S) = Some s'"
  obtains (small) "i < j" "0 \<le> i" "j < int (length b)" "s' = (b, i + 1, j - 1, S)"
      "decimal_abs (snd (b ! nat i)) < epsilon" "decimal_abs (snd (b ! nat j)) < epsilon"
  | (transfer) debtor debt creditor credit a i' j'
    where "i < j" "0 \<le> i" "j < int (length b)"
      "b ! nat i = (debtor, debt)" "b ! nat j = (creditor, credit)"
      "debt < 0" "0 < credit" "a = min (decimal_abs debt) credit"
      "s' = (b[nat i := (debtor, decimal_add debt a), nat j := (creditor, decimal_sub credit a)],
             i', j', if epsilon < a then S @ [(debtor, creditor, a)] else S)"
      "i' = (if decimal_abs (decimal_add debt a) < epsilon then i + 1 else i)"
      "j' = (if decimal_abs (decimal_sub credit a) < epsilon then j - 1 else j)"
proof -
  obtain debtor debt where d: "b ! nat i = (debtor, debt)" by (cases "b ! nat i")
  obtain creditor credit where c: "b ! nat j = (creditor, credit)" by (cases "b ! nat j")
  from assms have rng: "i < j" "0 \<le> i" "j < int (length b)"
    by (auto simp: settle_step_def split: if_splits)
  show ?thesis
  proof (cases "decimal_abs debt < epsilon \<and> decimal_abs credit < epsilon")
    case True
    with assms rng have "s' = (b, i + 1, j - 1, S)"
      by (simp add: settle_step_def d c)
    with rng show ?thesis using True by (intro small) (simp_all add: d c)
  next
    case False
    with assms rng have sign: "debt < 0" "0 < credit"
      by (auto simp: settle_step_def d c split: if_splits)
    define a where "a = min (decimal_abs debt) credit"
    define i' where "i' = (if decimal_abs (decimal_add debt a) < epsilon then i + 1 else i)"
    define j' where "j' = (if decimal_abs (decimal_sub credit a) < epsilon then j - 1 else j)"
    have idx: "nat i \<noteq> nat j" "nat i < length b" "nat j < length b"
      using rng by simp_all
    from assms rng False sign
    have "s' = (b[nat i := (debtor, decimal_add debt a), nat j := (creditor, decimal_sub credit a)],
        i', j', if epsilon < a then S @ [(debtor, creditor, a)] else S)"
      using idx by (auto simp add: settle_step_def d c Let_def a_def i'_def j'_def not_le)
    with rng d c sign a_def show ?thesis using i'_def j'_def by (rule transfer)
  qed
qed

lemma settle_loop_rule:
  assumes "P s"
    and "\<And>s s'. P s \<Longrightarrow> settle_step s = Some s' \<Longrightarrow> P s'"
    and "\<And>b i j S. P (b, i, j, S) \<Longrightarrow> settle_step (b, i, j, S) = None \<Longrightarrow> Q S"
  shows "Q (settle_loop s)"
  using assms(1)
proof (induction s rule: settle_loop.induct)
  case (1 s)
  show ?case
  proof (cases "settle_step s")
    case None
    obtain b i j S where s: "s = (b, i, j, S)" by (cases s)
    have "settle_loop s = snd (snd (snd s))"
      using None by (subst settle_loop.simps) simp
    then have "settle_loop s = S" by (simp add: s)
    moreover have "Q S" using "1.prems" None assms(3) by (simp add: s)
    ultimately show ?thesis by simp
  next
    case (Some s')
    have "P s'" using "1.prems" Some by (rule assms(2))
    then have "Q (settle_loop s')" using Some by (intro "1.IH")
    moreover have "settle_loop s = settle_loop s'"
      using Some by (subst settle_loop.simps) simp
    ultimately show ?thesis by simp
  qed
qed

text \<open>
  The two amounts a step writes back lie between the old amount and zero: the debt is
  raised by at most its size, the credit lowered by at most itself.
\<close>

lemma transfer_bounds:
  assumes "representable debt" and "representable credit" and "debt < 0" and "0 < credit"
    and "a = min (decimal_abs debt) credit"
  shows "0 < a" and "a \<le> - debt" and "a \<le> credit"
    and "debt \<le> decimal_add debt a" and "decimal_add debt a \<le> 0"
    and "0 \<le> decimal_sub credit a" and "decimal_sub credit a \<le> credit"
proof -
  have ad: "decimal_abs debt = - debt"
    using assms(1,3) by (simp add: decimal_abs_representable)
  show a: "0 < a" "a \<le> - debt" "a \<le> credit"
    using assms(3,4) by (simp_all add: assms(5) ad)
  have "context_round debt \<le> context_round (debt + a)"
    using a(1) by (intro context_round_mono) simp
  then show "debt \<le> decimal_add debt a"
    using assms(1) by (simp add: decimal_add_def representable_fixed)
  show "decimal_add debt a \<le> 0"
    using a(2) by (simp add: decimal_add_def)
  show "0 \<le> decimal_sub credit a"
    using a(3) by (simp add: decimal_sub_def)
  have "context_round (credit - a) \<le> context_round credit"
    using a(1) by (intro context_round_mono) simp
  then show "decimal_sub credit a \<le> credit"
    using assms(2) by (simp add: decimal_sub_def representable_fixed)
qed

text \<open>
  The invariant of the loop, relative to the sorted list \<open>b0\<close> it starts from: the
  names stay in place; every working balance is representable and lies between the
  original one and zero; every settlement emitted so far is an amount above epsilon
  from a position to a different position, at most the original debt of the one and at
  most the original credit of the other.
\<close>

definition settle_inv :: "(string \<times> decimal) list \<Rightarrow> settle_state \<Rightarrow> bool" where
  "settle_inv b0 s =
     (case s of (b, i, j, S) \<Rightarrow>
        length b = length b0 \<and> map fst b = map fst b0 \<and>
        (\<forall>k < length b0. representable (snd (b ! k)) \<and>
           (snd (b0 ! k) \<le> 0 \<longrightarrow> snd (b0 ! k) \<le> snd (b ! k) \<and> snd (b ! k) \<le> 0) \<and>
           (0 \<le> snd (b0 ! k) \<longrightarrow> 0 \<le> snd (b ! k) \<and> snd (b ! k) \<le> snd (b0 ! k))) \<and>
        (\<forall>(d, c, a) \<in> set S. epsilon < a \<and>
           (\<exists>k l. k < length b0 \<and> l < length b0 \<and> k \<noteq> l \<and>
              fst (b0 ! k) = d \<and> fst (b0 ! l) = c \<and>
              a \<le> - snd (b0 ! k) \<and> a \<le> snd (b0 ! l))))"

lemma map_fst_update_same:
  "k < length b \<Longrightarrow> fst (b ! k) = u \<Longrightarrow> map fst (b[k := (u, x)]) = map fst b"
  by (simp add: map_update list_update_same_conv)

lemma settle_inv_step:
  assumes "settle_inv b0 s" and "settle_step s = Some s'"
  shows "settle_inv b0 s'"
proof -
  obtain b i j S where s: "s = (b, i, j, S)" by (cases s)
  from assms(1) have len: "length b = length b0" and names: "map fst b = map fst b0"
    and vals: "\<And>k. k < length b0 \<Longrightarrow> representable (snd (b ! k)) \<and>
        (snd (b0 ! k) \<le> 0 \<longrightarrow> snd (b0 ! k) \<le> snd (b ! k) \<and> snd (b ! k) \<le> 0) \<and>
        (0 \<le> snd (b0 ! k) \<longrightarrow> 0 \<le> snd (b ! k) \<and> snd (b ! k) \<le> snd (b0 ! k))"
    and sett: "\<forall>(d, c, a) \<in> set S. epsilon < a \<and>
        (\<exists>k l. k < length b0 \<and> l < length b0 \<and> k \<noteq> l \<and>
           fst (b0 ! k) = d \<and> fst (b0 ! l) = c \<and> a \<le> - snd (b0 ! k) \<and> a \<le> snd (b0 ! l))"
    by (auto simp: settle_inv_def s)
  have name: "fst (b ! k) = fst (b0 ! k)" if "k < length b0" for k
    using that names len by (metis nth_map)
  from assms(2) [unfolded s] show ?thesis
  proof (cases rule: settle_step_Some)
    case small
    then show ?thesis using assms(1) by (simp add: settle_inv_def s)
  next
    case (transfer debtor debt creditor credit a i' j')
    define I where "I = nat i"
    define J where "J = nat j"
    have IJ: "I \<noteq> J" "I < length b0" "J < length b0"
      using transfer(1-3) len by (simp_all add: I_def J_def)
    have bI: "b ! I = (debtor, debt)" and bJ: "b ! J = (creditor, credit)"
      using transfer(4,5) by (simp_all add: I_def J_def)
    have rd: "representable debt" and rc: "representable credit"
      using vals [OF IJ(2)] vals [OF IJ(3)] by (simp_all add: bI bJ)
    note tb = transfer_bounds [OF rd rc transfer(6,7,8)]
    define nd where "nd = decimal_add debt a"
    define nc where "nc = decimal_sub credit a"
    define b' where "b' = b[I := (debtor, nd), J := (creditor, nc)]"
    define S' where "S' = (if epsilon < a then S @ [(debtor, creditor, a)] else S)"
    have s': "s' = (b', i', j', S')"
      using transfer(9) by (simp add: b'_def S'_def nd_def nc_def I_def J_def)
    have nI: "snd (b0 ! I) \<le> debt" "snd (b0 ! I) \<le> 0"
      using vals [OF IJ(2)] transfer(6) by (auto simp: bI)
    have nJ: "credit \<le> snd (b0 ! J)" "0 \<le> snd (b0 ! J)"
      using vals [OF IJ(3)] transfer(7) by (auto simp: bJ)
    have len': "length b' = length b0" by (simp add: b'_def len)
    have names': "map fst b' = map fst b0"
    proof -
      have "map fst (b[I := (debtor, nd)]) = map fst b"
        using IJ(2) len bI by (intro map_fst_update_same) simp_all
      moreover have "fst (b[I := (debtor, nd)] ! J) = creditor"
        using IJ bJ by simp
      ultimately have "map fst b' = map fst b"
        unfolding b'_def using IJ(3) len by (subst map_fst_update_same) simp_all
      then show ?thesis by (simp add: names)
    qed
    have vals': "representable (snd (b' ! k)) \<and>
        (snd (b0 ! k) \<le> 0 \<longrightarrow> snd (b0 ! k) \<le> snd (b' ! k) \<and> snd (b' ! k) \<le> 0) \<and>
        (0 \<le> snd (b0 ! k) \<longrightarrow> 0 \<le> snd (b' ! k) \<and> snd (b' ! k) \<le> snd (b0 ! k))"
      if k: "k < length b0" for k
    proof -
      consider "k = I" | "k = J" | "k \<noteq> I" "k \<noteq> J" by blast
      then show ?thesis
      proof cases
        case 1
        then have "snd (b' ! k) = nd" using IJ len by (simp add: b'_def)
        moreover have "representable nd" by (simp add: nd_def decimal_add_def)
        ultimately show ?thesis
          using tb(4,5) nI transfer(6) by (auto simp: 1 nd_def)
      next
        case 2
        then have "snd (b' ! k) = nc" using IJ len by (simp add: b'_def)
        moreover have "representable nc" by (simp add: nc_def decimal_sub_def)
        ultimately show ?thesis
          using tb(6,7) nJ transfer(7) by (auto simp: 2 nc_def)
      next
        case 3
        then have "b' ! k = b ! k" by (simp add: b'_def)
        then show ?thesis using vals [OF k] by simp
      qed
    qed
    have sett': "\<forall>(d, c, x) \<in> set S'. epsilon < x \<and>
        (\<exists>k l. k < length b0 \<and> l < length b0 \<and> k \<noteq> l \<and>
           fst (b0 ! k) = d \<and> fst (b0 ! l) = c \<and> x \<le> - snd (b0 ! k) \<and> x \<le> snd (b0 ! l))"
    proof (cases "epsilon < a")
      case False
      then show ?thesis using sett by (simp add: S'_def)
    next
      case True
      have "fst (b0 ! I) = debtor" "fst (b0 ! J) = creditor"
        using name [OF IJ(2)] name [OF IJ(3)] by (simp_all add: bI bJ)
      moreover have "a \<le> - snd (b0 ! I)" "a \<le> snd (b0 ! J)"
        using tb(2,3) nI nJ by linarith+
      ultimately have "\<exists>k l. k < length b0 \<and> l < length b0 \<and> k \<noteq> l \<and>
           fst (b0 ! k) = debtor \<and> fst (b0 ! l) = creditor \<and>
           a \<le> - snd (b0 ! k) \<and> a \<le> snd (b0 ! l)"
        using IJ by blast
      then show ?thesis using sett True by (auto simp: S'_def)
    qed
    show ?thesis
      unfolding settle_inv_def s' using len' names' vals' sett' by simp
  qed
qed

text \<open>
  Applying settlements as payments, in exact arithmetic: the debtor's balance goes up by
  the amount and the creditor's down.
\<close>

definition apply_settlement :: "(string \<Rightarrow> rat) \<Rightarrow> settlement \<Rightarrow> (string \<Rightarrow> rat)" where
  "apply_settlement f s =
     (case s of (d, c, a) \<Rightarrow>
        (\<lambda>u. f u + (if u = d then a else 0) - (if u = c then a else 0)))"

definition apply_settlements :: "(string \<Rightarrow> rat) \<Rightarrow> settlement list \<Rightarrow> (string \<Rightarrow> rat)" where
  "apply_settlements f S = foldl apply_settlement f S"

definition paid :: "settlement list \<Rightarrow> string \<Rightarrow> rat" where
  "paid S u = sum_list (map (\<lambda>(d, c, a). if d = u then a else 0) S)"

definition received :: "settlement list \<Rightarrow> string \<Rightarrow> rat" where
  "received S u = sum_list (map (\<lambda>(d, c, a). if c = u then a else 0) S)"

definition net_of :: "(string \<times> decimal) list \<Rightarrow> string \<Rightarrow> rat" where
  "net_of N u = (case map_of N u of None \<Rightarrow> 0 | Some x \<Rightarrow> x)"

lemma apply_settlements_eq: "apply_settlements f S u = f u + paid S u - received S u"
proof (induction S arbitrary: f)
  case Nil
  show ?case by (simp add: apply_settlements_def paid_def received_def)
next
  case (Cons s S)
  obtain d c a where s: "s = (d, c, a)" by (cases s)
  have "apply_settlements f (s # S) u = apply_settlements (apply_settlement f s) S u"
    by (simp add: apply_settlements_def)
  then show ?case
    by (simp add: Cons.IH s apply_settlement_def paid_def received_def)
qed

lemma paid_append [simp]: "paid (S @ [(d, c, a)]) u = paid S u + (if d = u then a else 0)"
  by (simp add: paid_def)

lemma received_append [simp]:
  "received (S @ [(d, c, a)]) u = received S u + (if c = u then a else 0)"
  by (simp add: received_def)

lemma paid_Nil [simp]: "paid [] u = 0"
  by (simp add: paid_def)

lemma received_Nil [simp]: "received [] u = 0"
  by (simp add: received_def)

text \<open>
  Amounts with a common quantum \<open>10^g\<close>. Sums and differences of such amounts have it
  too, and one of fewer than 28 digits above the quantum is representable, so the
  Decimal operation that produces it does not round.
\<close>

definition on_grid :: "int \<Rightarrow> rat \<Rightarrow> bool" where
  "on_grid g x \<longleftrightarrow> (\<exists>c::int. x = of_int c * pow10 g)"

lemma on_grid_add: "on_grid g x \<Longrightarrow> on_grid g y \<Longrightarrow> on_grid g (x + y)"
proof -
  assume "on_grid g x" "on_grid g y"
  then obtain c d :: int where "x = of_int c * pow10 g" "y = of_int d * pow10 g"
    by (auto simp: on_grid_def)
  then have "x + y = of_int (c + d) * pow10 g" by (simp add: algebra_simps)
  then show ?thesis unfolding on_grid_def by blast
qed

lemma on_grid_minus: "on_grid g x \<Longrightarrow> on_grid g (- x)"
proof -
  assume "on_grid g x"
  then obtain c :: int where "x = of_int c * pow10 g" by (auto simp: on_grid_def)
  then have "- x = of_int (- c) * pow10 g" by simp
  then show ?thesis unfolding on_grid_def by blast
qed

lemma on_grid_diff: "on_grid g x \<Longrightarrow> on_grid g y \<Longrightarrow> on_grid g (x - y)"
  using on_grid_add [of g x "- y"] on_grid_minus [of g y] by simp

lemma on_grid_representable:
  assumes "on_grid g x" and "\<bar>x\<bar> < 10 ^ 28 * pow10 g"
  shows "representable x"
proof -
  from assms(1) obtain c :: int where c: "x = of_int c * pow10 g" by (auto simp: on_grid_def)
  have "rat_of_int \<bar>c\<bar> * pow10 g < 10 ^ 28 * pow10 g"
    using assms(2) by (simp add: c abs_mult)
  then have "rat_of_int \<bar>c\<bar> < rat_of_int (10 ^ 28)" by simp
  then have "\<bar>c\<bar> < 10 ^ 28" by (simp only: of_int_less_iff)
  then show ?thesis unfolding representable_def using c by blast
qed

text \<open>
  The accounting invariant, for balances on a grid: a position that started in debt has
  received nothing and its working balance is at least the original one plus what it
  was told to pay; a position that started in credit has paid nothing and its working
  balance is at most the original one minus what it was told to receive.
\<close>

definition settle_acc :: "int \<Rightarrow> (string \<times> decimal) list \<Rightarrow> settle_state \<Rightarrow> bool" where
  "settle_acc g b0 s =
     (case s of (b, i, j, S) \<Rightarrow>
        (\<forall>k < length b0. on_grid g (snd (b ! k)) \<and>
           (snd (b0 ! k) \<le> 0 \<longrightarrow>
              received S (fst (b0 ! k)) = 0 \<and>
              snd (b0 ! k) + paid S (fst (b0 ! k)) \<le> snd (b ! k)) \<and>
           (0 \<le> snd (b0 ! k) \<longrightarrow>
              paid S (fst (b0 ! k)) = 0 \<and>
              snd (b ! k) \<le> snd (b0 ! k) - received S (fst (b0 ! k)))))"

lemma settle_acc_step:
  assumes inv: "settle_inv b0 s" and acc: "settle_acc g b0 s"
    and step: "settle_step s = Some s'"
    and dist: "distinct (map fst b0)"
    and bound: "\<forall>k < length b0. \<bar>snd (b0 ! k)\<bar> < 10 ^ 28 * pow10 g"
  shows "settle_acc g b0 s'"
proof -
  obtain b i j S where s: "s = (b, i, j, S)" by (cases s)
  from inv have len: "length b = length b0" and names: "map fst b = map fst b0"
    and vals: "\<And>k. k < length b0 \<Longrightarrow> representable (snd (b ! k)) \<and>
        (snd (b0 ! k) \<le> 0 \<longrightarrow> snd (b0 ! k) \<le> snd (b ! k) \<and> snd (b ! k) \<le> 0) \<and>
        (0 \<le> snd (b0 ! k) \<longrightarrow> 0 \<le> snd (b ! k) \<and> snd (b ! k) \<le> snd (b0 ! k))"
    by (auto simp: settle_inv_def s)
  from acc have accs: "\<And>k. k < length b0 \<Longrightarrow> on_grid g (snd (b ! k)) \<and>
        (snd (b0 ! k) \<le> 0 \<longrightarrow>
           received S (fst (b0 ! k)) = 0 \<and> snd (b0 ! k) + paid S (fst (b0 ! k)) \<le> snd (b ! k)) \<and>
        (0 \<le> snd (b0 ! k) \<longrightarrow>
           paid S (fst (b0 ! k)) = 0 \<and> snd (b ! k) \<le> snd (b0 ! k) - received S (fst (b0 ! k)))"
    by (auto simp: settle_acc_def s)
  have name: "fst (b ! k) = fst (b0 ! k)" if "k < length b0" for k
    using that names len by (metis nth_map)
  have name_inj: "fst (b0 ! k) = fst (b0 ! l) \<longleftrightarrow> k = l"
    if "k < length b0" "l < length b0" for k l
    using that dist by (metis length_map nth_eq_iff_index_eq nth_map)
  from step [unfolded s] show ?thesis
  proof (cases rule: settle_step_Some)
    case small
    then show ?thesis using acc by (simp add: settle_acc_def s)
  next
    case (transfer debtor debt creditor credit a i' j')
    define I where "I = nat i"
    define J where "J = nat j"
    have IJ: "I \<noteq> J" "I < length b0" "J < length b0"
      using transfer(1-3) len by (simp_all add: I_def J_def)
    have bI: "b ! I = (debtor, debt)" and bJ: "b ! J = (creditor, credit)"
      using transfer(4,5) by (simp_all add: I_def J_def)
    have rd: "representable debt" and rc: "representable credit"
      using vals [OF IJ(2)] vals [OF IJ(3)] by (simp_all add: bI bJ)
    note tb = transfer_bounds [OF rd rc transfer(6,7,8)]
    have nI: "snd (b0 ! I) \<le> debt" "snd (b0 ! I) \<le> 0"
      using vals [OF IJ(2)] transfer(6) by (auto simp: bI)
    have nJ: "credit \<le> snd (b0 ! J)" "0 \<le> snd (b0 ! J)"
      using vals [OF IJ(3)] transfer(7) by (auto simp: bJ)
    have gd: "on_grid g debt" and gc: "on_grid g credit"
      using accs [OF IJ(2)] accs [OF IJ(3)] by (simp_all add: bI bJ)
    have ad: "decimal_abs debt = - debt"
      using rd transfer(6) by (simp add: decimal_abs_representable)
    have ga: "on_grid g a"
      using gd gc on_grid_minus [OF gd] by (auto simp: transfer(8) ad min_def)
    have exd: "decimal_add debt a = debt + a"
    proof -
      have "\<bar>debt + a\<bar> \<le> \<bar>snd (b0 ! I)\<bar>" using tb(1,2) nI transfer(6) by linarith
      then have "\<bar>debt + a\<bar> < 10 ^ 28 * pow10 g" using bound IJ(2) by fastforce
      then have "representable (debt + a)"
        using on_grid_add [OF gd ga] by (intro on_grid_representable)
      then show ?thesis by (simp add: decimal_add_def representable_fixed)
    qed
    have exc: "decimal_sub credit a = credit - a"
    proof -
      have "\<bar>credit - a\<bar> \<le> \<bar>snd (b0 ! J)\<bar>" using tb(1,3) nJ transfer(7) by linarith
      then have "\<bar>credit - a\<bar> < 10 ^ 28 * pow10 g" using bound IJ(3) by fastforce
      then have "representable (credit - a)"
        using on_grid_diff [OF gc ga] by (intro on_grid_representable)
      then show ?thesis by (simp add: decimal_sub_def representable_fixed)
    qed
    define b' where "b' = b[I := (debtor, debt + a), J := (creditor, credit - a)]"
    define S' where "S' = (if epsilon < a then S @ [(debtor, creditor, a)] else S)"
    have s': "s' = (b', i', j', S')"
      using transfer(9) by (simp add: b'_def S'_def exd exc I_def J_def)
    have uI: "fst (b0 ! I) = debtor" and uJ: "fst (b0 ! J) = creditor"
      using name [OF IJ(2)] name [OF IJ(3)] by (simp_all add: bI bJ)
    have dc: "debtor \<noteq> creditor"
      using name_inj [OF IJ(2,3)] IJ(1) by (simp add: uI uJ)
    have paid': "paid S' u = paid S u + (if epsilon < a \<and> u = debtor then a else 0)" for u
      by (auto simp: S'_def)
    have received': "received S' u = received S u + (if epsilon < a \<and> u = creditor then a else 0)"
      for u
      by (auto simp: S'_def)
    have "on_grid g (snd (b' ! k)) \<and>
        (snd (b0 ! k) \<le> 0 \<longrightarrow>
           received S' (fst (b0 ! k)) = 0 \<and> snd (b0 ! k) + paid S' (fst (b0 ! k)) \<le> snd (b' ! k)) \<and>
        (0 \<le> snd (b0 ! k) \<longrightarrow>
           paid S' (fst (b0 ! k)) = 0 \<and> snd (b' ! k) \<le> snd (b0 ! k) - received S' (fst (b0 ! k)))"
      if k: "k < length b0" for k
    proof -
      consider "k = I" | "k = J" | "k \<noteq> I" "k \<noteq> J" by blast
      then show ?thesis
      proof cases
        case 1
        have w: "snd (b' ! I) = debt + a" using IJ len by (simp add: b'_def)
        have neg: "\<not> 0 \<le> snd (b0 ! I)" using nI(1) transfer(6) by linarith
        have "received S' debtor = 0"
          using accs [OF IJ(2)] nI(2) dc by (simp add: received' uI)
        moreover have "snd (b0 ! I) + paid S' debtor \<le> debt + a"
          using accs [OF IJ(2)] nI(2) tb(1) by (auto simp: paid' uI bI)
        ultimately show ?thesis
          using neg on_grid_add [OF gd ga] by (simp add: 1 w uI)
      next
        case 2
        have w: "snd (b' ! J) = credit - a" using IJ len by (simp add: b'_def)
        have pos: "\<not> snd (b0 ! J) \<le> 0" using nJ(1) transfer(7) by linarith
        have "paid S' creditor = 0"
          using accs [OF IJ(3)] nJ(2) dc by (simp add: paid' uJ)
        moreover have "credit - a \<le> snd (b0 ! J) - received S' creditor"
          using accs [OF IJ(3)] nJ(2) tb(1) by (auto simp: received' uJ bJ)
        ultimately show ?thesis
          using pos on_grid_diff [OF gc ga] by (simp add: 2 w uJ)
      next
        case 3
        then have same: "b' ! k = b ! k" by (simp add: b'_def)
        have "fst (b0 ! k) \<noteq> debtor" "fst (b0 ! k) \<noteq> creditor"
          using name_inj [OF k IJ(2)] name_inj [OF k IJ(3)] 3 by (simp_all add: uI uJ)
        then show ?thesis using accs [OF k] by (simp add: same paid' received')
      qed
    qed
    then show ?thesis by (simp add: settle_acc_def s')
  qed
qed

text \<open>
  The list the loop starts from: one pair for each user, in the order of the users, and
  every net balance is representable, being 0 or the result of a Decimal addition.
\<close>

lemma sum_balances_representable:
  "sum_balances ts uid acc = Inr x \<Longrightarrow> representable acc \<Longrightarrow> representable x"
proof (induction ts arbitrary: acc)
  case Nil
  then show ?case by simp
next
  case (Cons t ts)
  then show ?case
    by (auto simp: decimal_add_def representable_context_round split: if_splits sum.splits)
qed

lemma net_balances_spec:
  "net_balances m ids = Inr N \<Longrightarrow> map fst N = ids \<and> (\<forall>p \<in> set N. representable (snd p))"
proof (induction ids arbitrary: N)
  case Nil
  then show ?case by simp
next
  case (Cons uid ids)
  from Cons.prems obtain x N' where x: "net_balance m uid = Inr x"
    and N': "net_balances m ids = Inr N'" and N: "N = (uid, x) # N'"
    by (auto split: sum.splits)
  have "representable x"
    using x sum_balances_representable [of "map snd (transactions m)" uid 0 x]
    by (simp add: net_balance_def representable_0)
  then show ?case using Cons.IH [OF N'] by (simp add: N)
qed

lemma distinct_sort_key_names:
  "distinct (map fst N) \<Longrightarrow> distinct (map fst (sort_key snd N))"
  by (simp add: distinct_map)

lemma settle_inv_init:
  assumes "\<forall>p \<in> set b0. representable (snd p)"
  shows "settle_inv b0 (b0, i, j, [])"
  using assms by (simp add: settle_inv_def)

lemma settle_acc_init:
  assumes "\<forall>p \<in> set b0. on_grid g (snd p)"
  shows "settle_acc g b0 (b0, i, j, [])"
  using assms by (simp add: settle_acc_def)

lemma paid_nonneg: "\<forall>(d, c, a) \<in> set S. 0 \<le> a \<Longrightarrow> 0 \<le> paid S u"
  unfolding paid_def by (induction S) auto

lemma received_nonneg: "\<forall>(d, c, a) \<in> set S. 0 \<le> a \<Longrightarrow> 0 \<le> received S u"
  unfolding received_def by (induction S) auto

lemma net_of_member: "distinct (map fst N) \<Longrightarrow> (u, x) \<in> set N \<Longrightarrow> net_of N u = x"
  by (simp add: net_of_def)

lemma settle_loop_settlements:
  assumes rep: "\<forall>p \<in> set b0. representable (snd p)" and dist: "distinct (map fst b0)"
  shows "\<forall>(d, c, a) \<in> set (settle_loop (b0, i, j, [])).
           epsilon < a \<and> d \<noteq> c \<and>
           (\<exists>x y. (d, x) \<in> set b0 \<and> (c, y) \<in> set b0 \<and> a \<le> - x \<and> a \<le> y)"
proof (rule settle_loop_rule [where P = "settle_inv b0"])
  show "settle_inv b0 (b0, i, j, [])" using rep by (rule settle_inv_init)
next
  fix s s' assume "settle_inv b0 s" "settle_step s = Some s'"
  then show "settle_inv b0 s'" by (rule settle_inv_step)
next
  fix b i' j' S assume inv: "settle_inv b0 (b, i', j', S)"
  show "\<forall>(d, c, a) \<in> set S. epsilon < a \<and> d \<noteq> c \<and>
           (\<exists>x y. (d, x) \<in> set b0 \<and> (c, y) \<in> set b0 \<and> a \<le> - x \<and> a \<le> y)"
  proof (clarify, intro conjI)
    fix d c a assume "(d, c, a) \<in> set S"
    with inv obtain k l where a: "epsilon < a" and kl: "k < length b0" "l < length b0" "k \<noteq> l"
      and n: "fst (b0 ! k) = d" "fst (b0 ! l) = c"
      and le: "a \<le> - snd (b0 ! k)" "a \<le> snd (b0 ! l)"
      by (fastforce simp: settle_inv_def)
    show "epsilon < a" by (rule a)
    have "fst (b0 ! k) \<noteq> fst (b0 ! l)"
      using kl dist by (metis length_map nth_eq_iff_index_eq nth_map)
    then show "d \<noteq> c" by (simp add: n)
    have "(d, snd (b0 ! k)) \<in> set b0" "(c, snd (b0 ! l)) \<in> set b0"
      using kl n by (metis nth_mem prod.collapse)+
    then show "\<exists>x y. (d, x) \<in> set b0 \<and> (c, y) \<in> set b0 \<and> a \<le> - x \<and> a \<le> y"
      using le by blast
  qed
qed

lemma settle_loop_empty:
  assumes rep: "\<forall>p \<in> set b0. representable (snd p)"
    and small: "\<forall>p \<in> set b0. \<bar>snd p\<bar> \<le> epsilon"
  shows "settle_loop (b0, i, j, []) = []"
proof (rule settle_loop_rule [where P = "\<lambda>s. settle_inv b0 s \<and> snd (snd (snd s)) = []"])
  show "settle_inv b0 (b0, i, j, []) \<and> snd (snd (snd (b0, i, j, []))) = []"
    using rep by (simp add: settle_inv_init)
next
  fix s s' assume P: "settle_inv b0 s \<and> snd (snd (snd s)) = []"
    and step: "settle_step s = Some s'"
  obtain b i' j' S where s: "s = (b, i', j', S)" by (cases s)
  have S: "S = []" using P by (simp add: s)
  have inv: "settle_inv b0 (b, i', j', S)" using P unfolding s by blast
  have "snd (snd (snd s')) = []"
    using step [unfolded s]
  proof (cases rule: settle_step_Some)
    case small
    then show ?thesis by (simp add: S)
  next
    case (transfer debtor debt creditor credit a i'' j'')
    have J: "nat j' < length b0" using transfer(1-3) inv by (simp add: settle_inv_def)
    have "0 \<le> snd (b0 ! nat j') \<or> snd (b0 ! nat j') \<le> 0" by linarith
    then have "credit \<le> \<bar>snd (b0 ! nat j')\<bar>"
      using inv J transfer(5,7) by (auto simp: settle_inv_def)
    moreover have "\<bar>snd (b0 ! nat j')\<bar> \<le> epsilon" using small J by simp
    ultimately have "\<not> epsilon < a" using transfer(8) by simp
    then show ?thesis using transfer(9) by (simp add: S)
  qed
  then show "settle_inv b0 s' \<and> snd (snd (snd s')) = []"
    using P step settle_inv_step by blast
next
  fix b i' j' S assume "settle_inv b0 (b, i', j', S) \<and> snd (snd (snd (b, i', j', S))) = []"
  then show "S = []" by simp
qed

lemma settle_loop_toward_zero:
  assumes rep: "\<forall>p \<in> set b0. representable (snd p)" and dist: "distinct (map fst b0)"
    and grid: "\<forall>p \<in> set b0. on_grid g (snd p)"
    and bound: "\<forall>p \<in> set b0. \<bar>snd p\<bar> < 10 ^ 28 * pow10 g"
  shows "\<forall>(u, x) \<in> set b0.
           (x \<le> 0 \<longrightarrow>
              x \<le> x + paid (settle_loop (b0, i, j, [])) u - received (settle_loop (b0, i, j, [])) u \<and>
              x + paid (settle_loop (b0, i, j, [])) u - received (settle_loop (b0, i, j, [])) u \<le> 0) \<and>
           (0 \<le> x \<longrightarrow>
              0 \<le> x + paid (settle_loop (b0, i, j, [])) u - received (settle_loop (b0, i, j, [])) u \<and>
              x + paid (settle_loop (b0, i, j, [])) u - received (settle_loop (b0, i, j, [])) u \<le> x)"
proof (rule settle_loop_rule [where P = "\<lambda>s. settle_inv b0 s \<and> settle_acc g b0 s"])
  show "settle_inv b0 (b0, i, j, []) \<and> settle_acc g b0 (b0, i, j, [])"
    using rep grid by (simp add: settle_inv_init settle_acc_init)
next
  fix s s' assume P: "settle_inv b0 s \<and> settle_acc g b0 s" and step: "settle_step s = Some s'"
  have "\<forall>k < length b0. \<bar>snd (b0 ! k)\<bar> < 10 ^ 28 * pow10 g" using bound by simp
  then have "settle_acc g b0 s'"
    using P step dist settle_acc_step by blast
  then show "settle_inv b0 s' \<and> settle_acc g b0 s'"
    using P step settle_inv_step by blast
next
  fix b i' j' S assume P: "settle_inv b0 (b, i', j', S) \<and> settle_acc g b0 (b, i', j', S)"
  have pos: "\<forall>(d, c, a) \<in> set S. 0 \<le> a"
  proof clarify
    fix d c a assume "(d, c, a) \<in> set S"
    with P have "epsilon < a" by (fastforce simp: settle_inv_def)
    then show "0 \<le> a" using epsilon_pos by linarith
  qed
  show "\<forall>(u, x) \<in> set b0.
           (x \<le> 0 \<longrightarrow> x \<le> x + paid S u - received S u \<and> x + paid S u - received S u \<le> 0) \<and>
           (0 \<le> x \<longrightarrow> 0 \<le> x + paid S u - received S u \<and> x + paid S u - received S u \<le> x)"
  proof clarify
    fix u x assume "(u, x) \<in> set b0"
    then obtain k where k: "k < length b0" and bk: "b0 ! k = (u, x)"
      by (auto simp: in_set_conv_nth)
    have v: "(x \<le> 0 \<longrightarrow> x \<le> snd (b ! k) \<and> snd (b ! k) \<le> 0) \<and>
             (0 \<le> x \<longrightarrow> 0 \<le> snd (b ! k) \<and> snd (b ! k) \<le> x)"
      using P k bk by (auto simp: settle_inv_def)
    have a: "(x \<le> 0 \<longrightarrow> received S u = 0 \<and> x + paid S u \<le> snd (b ! k)) \<and>
             (0 \<le> x \<longrightarrow> paid S u = 0 \<and> snd (b ! k) \<le> x - received S u)"
      using P k bk by (auto simp: settle_acc_def)
    have "0 \<le> paid S u" "0 \<le> received S u"
      using pos by (rule paid_nonneg, rule received_nonneg)
    then show "(x \<le> 0 \<longrightarrow> x \<le> x + paid S u - received S u \<and> x + paid S u - received S u \<le> 0) \<and>
           (0 \<le> x \<longrightarrow> 0 \<le> x + paid S u - received S u \<and> x + paid S u - received S u \<le> x)"
      using v a by auto
  qed
qed

lemma sum_list_update_snd:
  "k < length b \<Longrightarrow>
     sum_list (map snd (b[k := (u, v)])) = sum_list (map snd b) + v - snd (b ! k)"
  for b :: "(string \<times> rat) list"
proof (induction b arbitrary: k)
  case Nil
  then show ?case by simp
next
  case (Cons p b)
  then show ?case by (cases k) simp_all
qed

lemma sum_list_insort_key:
  "sum_list (map snd (insort_key snd p ps)) = snd p + sum_list (map snd ps)"
  for ps :: "(string \<times> rat) list"
  by (induction ps) simp_all

lemma sum_list_sort_key:
  "sum_list (map snd (sort_key snd N)) = sum_list (map snd N)"
  for N :: "(string \<times> rat) list"
  by (induction N) (simp_all add: sum_list_insort_key)

lemma settle_step_None:
  assumes "settle_step (b, i, j, S) = None" and "0 \<le> i" and "j < int (length b)"
  shows "j \<le> i \<or> (i < j \<and> (0 \<le> snd (b ! nat i) \<or> snd (b ! nat j) \<le> 0))"
  using assms
  by (cases "b ! nat i"; cases "b ! nat j")
    (auto simp: settle_step_def Let_def split: if_splits)

text \<open>
  On a grid the transfer is exact: the amount is the smaller of the debt and the credit,
  the two updates do not round, and one of the two balances becomes zero.
\<close>

lemma transfer_exact:
  assumes inv: "settle_inv b0 (b, i, j, S)" and acc: "settle_acc g b0 (b, i, j, S)"
    and bound: "\<forall>k < length b0. \<bar>snd (b0 ! k)\<bar> < 10 ^ 28 * pow10 g"
    and I: "I < length b0" and J: "J < length b0"
    and bI: "b ! I = (debtor, debt)" and bJ: "b ! J = (creditor, credit)"
    and sign: "debt < 0" "0 < credit"
    and a: "a = min (decimal_abs debt) credit"
  shows "a = min (- debt) credit"
    and "decimal_add debt a = debt + a"
    and "decimal_sub credit a = credit - a"
    and "decimal_abs (debt + a) = \<bar>debt + a\<bar>"
    and "decimal_abs (credit - a) = \<bar>credit - a\<bar>"
    and "snd (b0 ! I) \<le> debt" and "credit \<le> snd (b0 ! J)"
proof -
  from inv have vals: "\<And>k. k < length b0 \<Longrightarrow> representable (snd (b ! k)) \<and>
        (snd (b0 ! k) \<le> 0 \<longrightarrow> snd (b0 ! k) \<le> snd (b ! k) \<and> snd (b ! k) \<le> 0) \<and>
        (0 \<le> snd (b0 ! k) \<longrightarrow> 0 \<le> snd (b ! k) \<and> snd (b ! k) \<le> snd (b0 ! k))"
    by (auto simp: settle_inv_def)
  from acc have grid: "\<And>k. k < length b0 \<Longrightarrow> on_grid g (snd (b ! k))"
    by (auto simp: settle_acc_def)
  have rd: "representable debt" and rc: "representable credit"
    using vals [OF I] vals [OF J] by (simp_all add: bI bJ)
  note tb = transfer_bounds [OF rd rc sign a]
  have "0 \<le> snd (b0 ! I) \<or> snd (b0 ! I) \<le> 0" by linarith
  then show nI: "snd (b0 ! I) \<le> debt"
    using vals [OF I] sign(1) by (auto simp: bI)
  have "0 \<le> snd (b0 ! J) \<or> snd (b0 ! J) \<le> 0" by linarith
  then show nJ: "credit \<le> snd (b0 ! J)"
    using vals [OF J] sign(2) by (auto simp: bJ)
  have gd: "on_grid g debt" and gc: "on_grid g credit"
    using grid [OF I] grid [OF J] by (simp_all add: bI bJ)
  have ad: "decimal_abs debt = - debt"
    using rd sign(1) by (simp add: decimal_abs_representable)
  show "a = min (- debt) credit" by (simp add: a ad)
  have ga: "on_grid g a"
    using gd gc on_grid_minus [OF gd] by (auto simp: a ad min_def)
  have "\<bar>debt + a\<bar> \<le> \<bar>snd (b0 ! I)\<bar>" using tb(1,2) nI sign(1) by linarith
  then have "\<bar>debt + a\<bar> < 10 ^ 28 * pow10 g" using bound I by fastforce
  then have r1: "representable (debt + a)"
    using on_grid_add [OF gd ga] by (intro on_grid_representable)
  then show "decimal_add debt a = debt + a"
    by (simp add: decimal_add_def representable_fixed)
  show "decimal_abs (debt + a) = \<bar>debt + a\<bar>"
    using r1 by (rule decimal_abs_representable)
  have "\<bar>credit - a\<bar> \<le> \<bar>snd (b0 ! J)\<bar>" using tb(1,3) nJ sign(2) by linarith
  then have "\<bar>credit - a\<bar> < 10 ^ 28 * pow10 g" using bound J by fastforce
  then have r2: "representable (credit - a)"
    using on_grid_diff [OF gc ga] by (intro on_grid_representable)
  then show "decimal_sub credit a = credit - a"
    by (simp add: decimal_sub_def representable_fixed)
  show "decimal_abs (credit - a) = \<bar>credit - a\<bar>"
    using r2 by (rule decimal_abs_representable)
qed

text \<open>
  What the loop leaves behind, for balances on a grid. The pointers cross by at most
  one place; the working balances add up to what they did at the start; a place that a
  pointer has passed holds less than 0.01; a debt or credit between the pointers is
  still one; and the working balance of a user differs from the net balance less the
  settlements by at most 0.01 for each place passed, since every transfer, listed or
  not, is followed by the move of a pointer.
\<close>

definition settle_res :: "(string \<times> decimal) list \<Rightarrow> settle_state \<Rightarrow> bool" where
  "settle_res b0 s =
     (case s of (b, i, j, S) \<Rightarrow>
        0 \<le> i \<and> i \<le> j + 1 \<and> j < int (length b0) \<and>
        sum_list (map snd b) = sum_list (map snd b0) \<and>
        (\<forall>k < length b0. (int k < i \<or> j < int k) \<longrightarrow> \<bar>snd (b ! k)\<bar> < epsilon) \<and>
        (\<forall>k < length b0. i \<le> int k \<and> int k \<le> j \<longrightarrow>
           (snd (b0 ! k) < 0 \<longrightarrow> snd (b ! k) < 0) \<and> (0 < snd (b0 ! k) \<longrightarrow> 0 < snd (b ! k))) \<and>
        (\<forall>k < length b0.
           (snd (b0 ! k) \<le> 0 \<longrightarrow>
              snd (b ! k) - (snd (b0 ! k) + paid S (fst (b0 ! k)))
                \<le> epsilon * of_int (i + (int (length b0) - 1 - j))) \<and>
           (0 \<le> snd (b0 ! k) \<longrightarrow>
              snd (b0 ! k) - received S (fst (b0 ! k)) - snd (b ! k)
                \<le> epsilon * of_int (i + (int (length b0) - 1 - j)))))"

lemma epsilon_nonneg [simp]: "0 \<le> epsilon"
  by (simp add: epsilon_def)

lemma settle_res_init: "settle_res b0 (b0, 0, int (length b0) - 1, [])"
  by (simp add: settle_res_def)

lemma settle_res_step:
  assumes inv: "settle_inv b0 s" and acc: "settle_acc g b0 s" and res: "settle_res b0 s"
    and step: "settle_step s = Some s'"
    and dist: "distinct (map fst b0)"
    and bound: "\<forall>k < length b0. \<bar>snd (b0 ! k)\<bar> < 10 ^ 28 * pow10 g"
  shows "settle_res b0 s'"
proof -
  obtain b i j S where s: "s = (b, i, j, S)" by (cases s)
  define c where "c = i + (int (length b0) - 1 - j)"
  from inv have len: "length b = length b0" and names: "map fst b = map fst b0"
    and vals: "\<And>k. k < length b0 \<Longrightarrow> representable (snd (b ! k)) \<and>
        (snd (b0 ! k) \<le> 0 \<longrightarrow> snd (b0 ! k) \<le> snd (b ! k) \<and> snd (b ! k) \<le> 0) \<and>
        (0 \<le> snd (b0 ! k) \<longrightarrow> 0 \<le> snd (b ! k) \<and> snd (b ! k) \<le> snd (b0 ! k))"
    by (auto simp: settle_inv_def s)
  from res have ptr: "0 \<le> i" "i \<le> j + 1" "j < int (length b0)"
    and total: "sum_list (map snd b) = sum_list (map snd b0)"
    and passed: "\<And>k. k < length b0 \<Longrightarrow> int k < i \<or> j < int k \<Longrightarrow> \<bar>snd (b ! k)\<bar> < epsilon"
    and signs: "\<And>k. k < length b0 \<Longrightarrow> i \<le> int k \<Longrightarrow> int k \<le> j \<Longrightarrow>
        (snd (b0 ! k) < 0 \<longrightarrow> snd (b ! k) < 0) \<and> (0 < snd (b0 ! k) \<longrightarrow> 0 < snd (b ! k))"
    and dust: "\<And>k. k < length b0 \<Longrightarrow>
        (snd (b0 ! k) \<le> 0 \<longrightarrow>
           snd (b ! k) - (snd (b0 ! k) + paid S (fst (b0 ! k))) \<le> epsilon * of_int c) \<and>
        (0 \<le> snd (b0 ! k) \<longrightarrow>
           snd (b0 ! k) - received S (fst (b0 ! k)) - snd (b ! k) \<le> epsilon * of_int c)"
    by (auto simp: settle_res_def s c_def)
  have mono: "epsilon * of_int c \<le> epsilon * of_int c'" if "c \<le> c'" for c'
    using that epsilon_pos by (simp add: mult_left_mono)
  have name: "fst (b ! k) = fst (b0 ! k)" if "k < length b0" for k
    using that names len by (metis nth_map)
  have name_inj: "fst (b0 ! k) = fst (b0 ! l) \<longleftrightarrow> k = l"
    if "k < length b0" "l < length b0" for k l
    using that dist by (metis length_map nth_eq_iff_index_eq nth_map)
  from step [unfolded s] show ?thesis
  proof (cases rule: settle_step_Some)
    case small
    define I where "I = nat i"
    define J where "J = nat j"
    have IJ: "I < length b0" "J < length b0" "int I = i" "int J = j"
      using small(1-3) len by (simp_all add: I_def J_def)
    have sI: "\<bar>snd (b ! I)\<bar> < epsilon" and sJ: "\<bar>snd (b ! J)\<bar> < epsilon"
      using small(5,6) vals [OF IJ(1)] vals [OF IJ(2)]
      by (simp_all add: decimal_abs_representable I_def J_def)
    have p: "\<bar>snd (b ! k)\<bar> < epsilon"
      if k: "k < length b0" "int k < i + 1 \<or> j - 1 < int k" for k
    proof -
      have "int k = int I \<or> int k = int J \<or> int k < i \<or> j < int k"
        using k(2) IJ(3,4) by linarith
      then consider "k = I" | "k = J" | "int k < i \<or> j < int k" by auto
      then show ?thesis using sI sJ passed [OF k(1)] by cases auto
    qed
    have d: "(snd (b0 ! k) \<le> 0 \<longrightarrow>
           snd (b ! k) - (snd (b0 ! k) + paid S (fst (b0 ! k)))
             \<le> epsilon * of_int (i + 1 + (int (length b0) - 1 - (j - 1)))) \<and>
        (0 \<le> snd (b0 ! k) \<longrightarrow>
           snd (b0 ! k) - received S (fst (b0 ! k)) - snd (b ! k)
             \<le> epsilon * of_int (i + 1 + (int (length b0) - 1 - (j - 1))))"
      if "k < length b0" for k
    proof -
      have "epsilon * of_int c \<le> epsilon * of_int (i + 1 + (int (length b0) - 1 - (j - 1)))"
        by (rule mono) (simp add: c_def)
      then show ?thesis using dust [OF that] by (blast intro: order_trans)
    qed
    show ?thesis
      unfolding small(4) settle_res_def prod.case
      using ptr small(1) total p signs d by simp
  next
    case (transfer debtor debt creditor credit a i' j')
    define I where "I = nat i"
    define J where "J = nat j"
    have IJ: "I \<noteq> J" "I < length b0" "J < length b0" "int I = i" "int J = j"
      using transfer(1-3) len by (simp_all add: I_def J_def)
    have bI: "b ! I = (debtor, debt)" and bJ: "b ! J = (creditor, credit)"
      using transfer(4,5) by (simp_all add: I_def J_def)
    note ex = transfer_exact [OF inv [unfolded s] acc [unfolded s] bound IJ(2,3) bI bJ
        transfer(6,7,8)]
    have a: "0 < a" "a \<le> - debt" "a \<le> credit" "debt + a = 0 \<or> credit - a = 0"
      using ex(1) transfer(6,7) by (auto simp: min_def)
    define b' where "b' = b[I := (debtor, debt + a), J := (creditor, credit - a)]"
    define S' where "S' = (if epsilon < a then S @ [(debtor, creditor, a)] else S)"
    have i': "i' = (if \<bar>debt + a\<bar> < epsilon then i + 1 else i)"
      using transfer(10) by (simp add: ex(2,4))
    have j': "j' = (if \<bar>credit - a\<bar> < epsilon then j - 1 else j)"
      using transfer(11) by (simp add: ex(3,5))
    have s': "s' = (b', i', j', S')"
      using transfer(9) by (simp add: b'_def S'_def ex(2,3) I_def J_def)
    have ptr': "i \<le> i'" "i' \<le> i + 1" "j - 1 \<le> j'" "j' \<le> j"
      by (simp_all add: i' j')
    have moved: "c + 1 \<le> i' + (int (length b0) - 1 - j')"
      using a(4) epsilon_pos by (auto simp: i' j' c_def)
    have wI: "snd (b' ! I) = debt + a" and wJ: "snd (b' ! J) = credit - a"
      using IJ len by (simp_all add: b'_def)
    have wk: "b' ! k = b ! k" if "k \<noteq> I" "k \<noteq> J" for k
      using that by (simp add: b'_def)
    have uI: "fst (b0 ! I) = debtor" and uJ: "fst (b0 ! J) = creditor"
      using name [OF IJ(2)] name [OF IJ(3)] by (simp_all add: bI bJ)
    have dc: "debtor \<noteq> creditor"
      using name_inj [OF IJ(2,3)] IJ(1) by (simp add: uI uJ)
    have xI: "snd (b0 ! I) < 0" and xJ: "0 < snd (b0 ! J)"
      using ex(6,7) transfer(6,7) by linarith+
    have total': "sum_list (map snd b') = sum_list (map snd b0)"
    proof -
      have "sum_list (map snd b') =
          sum_list (map snd (b[I := (debtor, debt + a)])) + (credit - a)
            - snd (b[I := (debtor, debt + a)] ! J)"
        unfolding b'_def using IJ(3) len by (intro sum_list_update_snd) simp
      also have "snd (b[I := (debtor, debt + a)] ! J) = credit"
        using IJ(1) by (simp add: bJ)
      also have "sum_list (map snd (b[I := (debtor, debt + a)])) =
          sum_list (map snd b) + (debt + a) - snd (b ! I)"
        using IJ(2) len by (intro sum_list_update_snd) simp
      finally show ?thesis by (simp add: bI total)
    qed
    have p: "\<bar>snd (b' ! k)\<bar> < epsilon" if k: "k < length b0" "int k < i' \<or> j' < int k" for k
    proof -
      consider "k = I" | "k = J" | "k \<noteq> I" "k \<noteq> J" by blast
      then show ?thesis
      proof cases
        case 1
        then have "\<bar>debt + a\<bar> < epsilon"
          using k(2) IJ(4,5) transfer(1) ptr' by (auto simp: i' split: if_splits)
        then show ?thesis by (simp add: 1 wI)
      next
        case 2
        then have "\<bar>credit - a\<bar> < epsilon"
          using k(2) IJ(4,5) transfer(1) ptr' by (auto simp: j' split: if_splits)
        then show ?thesis by (simp add: 2 wJ)
      next
        case 3
        then have "int k < i \<or> j < int k" using k(2) ptr' IJ(4,5) by auto
        then show ?thesis using passed [OF k(1)] wk [OF 3] by simp
      qed
    qed
    have sg: "(snd (b0 ! k) < 0 \<longrightarrow> snd (b' ! k) < 0) \<and> (0 < snd (b0 ! k) \<longrightarrow> 0 < snd (b' ! k))"
      if k: "k < length b0" "i' \<le> int k" "int k \<le> j'" for k
    proof -
      consider "k = I" | "k = J" | "k \<noteq> I" "k \<noteq> J" by blast
      then show ?thesis
      proof cases
        case 1
        then have "\<not> \<bar>debt + a\<bar> < epsilon"
          using k(2) IJ(4) by (auto simp: i' split: if_splits)
        then have "debt + a \<noteq> 0" using epsilon_pos by auto
        then have "debt + a < 0" using a(2) by linarith
        then show ?thesis using xI by (simp add: 1 wI)
      next
        case 2
        then have "\<not> \<bar>credit - a\<bar> < epsilon"
          using k(3) IJ(5) by (auto simp: j' split: if_splits)
        then have "credit - a \<noteq> 0" using epsilon_pos by auto
        then have "0 < credit - a" using a(3) by linarith
        then show ?thesis using xJ by (simp add: 2 wJ)
      next
        case 3
        have "i \<le> int k" "int k \<le> j" using k(2,3) ptr' by linarith+
        then show ?thesis using signs [OF k(1)] wk [OF 3] by simp
      qed
    qed
    have paid': "paid S' u = paid S u + (if epsilon < a \<and> u = debtor then a else 0)" for u
      by (auto simp: S'_def)
    have received': "received S' u = received S u + (if epsilon < a \<and> u = creditor then a else 0)"
      for u
      by (auto simp: S'_def)
    have step_le: "epsilon * of_int c + epsilon \<le> epsilon * of_int (i' + (int (length b0) - 1 - j'))"
    proof -
      have "epsilon * of_int c + epsilon = epsilon * of_int (c + 1)"
        by (simp add: algebra_simps)
      also have "\<dots> \<le> epsilon * of_int (i' + (int (length b0) - 1 - j'))"
        using moved epsilon_pos by (intro mult_left_mono) (simp_all add: less_imp_le)
      finally show ?thesis .
    qed
    have keep_le: "epsilon * of_int c \<le> epsilon * of_int (i' + (int (length b0) - 1 - j'))"
      using moved by (intro mono) simp
    have d: "(snd (b0 ! k) \<le> 0 \<longrightarrow>
           snd (b' ! k) - (snd (b0 ! k) + paid S' (fst (b0 ! k)))
             \<le> epsilon * of_int (i' + (int (length b0) - 1 - j'))) \<and>
        (0 \<le> snd (b0 ! k) \<longrightarrow>
           snd (b0 ! k) - received S' (fst (b0 ! k)) - snd (b' ! k)
             \<le> epsilon * of_int (i' + (int (length b0) - 1 - j')))"
      if k: "k < length b0" for k
    proof -
      consider "k = I" | "k = J" | "k \<noteq> I" "k \<noteq> J" by blast
      then show ?thesis
      proof cases
        case 1
        have old: "debt - (snd (b0 ! I) + paid S debtor) \<le> epsilon * of_int c"
          using dust [OF IJ(2)] xI by (simp add: bI uI)
        have "debt + a - (snd (b0 ! I) + paid S' debtor)
            \<le> debt - (snd (b0 ! I) + paid S debtor) + epsilon"
          by (auto simp: paid')
        then have "debt + a - (snd (b0 ! I) + paid S' debtor)
            \<le> epsilon * of_int (i' + (int (length b0) - 1 - j'))"
          using old step_le by linarith
        then show ?thesis using xI by (simp add: 1 wI uI)
      next
        case 2
        have old: "snd (b0 ! J) - received S creditor - credit \<le> epsilon * of_int c"
          using dust [OF IJ(3)] xJ by (simp add: bJ uJ)
        have "snd (b0 ! J) - received S' creditor - (credit - a)
            \<le> snd (b0 ! J) - received S creditor - credit + epsilon"
          by (auto simp: received')
        then have "snd (b0 ! J) - received S' creditor - (credit - a)
            \<le> epsilon * of_int (i' + (int (length b0) - 1 - j'))"
          using old step_le by linarith
        then show ?thesis using xJ by (simp add: 2 wJ uJ)
      next
        case 3
        have "fst (b0 ! k) \<noteq> debtor" "fst (b0 ! k) \<noteq> creditor"
          using name_inj [OF k IJ(2)] name_inj [OF k IJ(3)] 3 by (simp_all add: uI uJ)
        then have eq: "paid S' (fst (b0 ! k)) = paid S (fst (b0 ! k))"
          "received S' (fst (b0 ! k)) = received S (fst (b0 ! k))"
          by (simp_all add: paid' received')
        show ?thesis
          unfolding eq wk [OF 3] using dust [OF k] keep_le by (blast intro: order_trans)
      qed
    qed
    have "0 \<le> i'" "i' \<le> j' + 1" "j' < int (length b0)"
      using ptr ptr' transfer(1) by linarith+
    then show ?thesis
      unfolding s' settle_res_def prod.case
      using total' p sg d by simp
  qed
qed

text \<open>
  Among amounts of one sign none exceeds the sum. So when the amounts of the places
  passed are below \<open>e\<close> and the others have one sign, an amount that is not zero,
  with \<open>e\<close> more for each place passed empty, is within the sum of all amounts and \<open>e\<close>
  for each other place.
\<close>

lemma abs_le_sum_same_sign:
  fixes w :: "nat \<Rightarrow> rat"
  assumes "finite R" and "k \<in> R" and "(\<forall>l \<in> R. 0 \<le> w l) \<or> (\<forall>l \<in> R. w l \<le> 0)"
  shows "\<bar>w k\<bar> \<le> \<bar>sum w R\<bar>"
  using assms(3)
proof
  assume pos: "\<forall>l \<in> R. 0 \<le> w l"
  then have "w k \<le> sum w R" using assms(1,2) by (intro member_le_sum) auto
  moreover have "0 \<le> w k" using pos assms(2) by blast
  ultimately show ?thesis by linarith
next
  assume neg: "\<forall>l \<in> R. w l \<le> 0"
  then have "- w k \<le> sum (\<lambda>l. - w l) R" using assms(1,2) by (intro member_le_sum) auto
  then have "- w k \<le> - sum w R" by (simp add: sum_negf)
  moreover have "w k \<le> 0" using neg assms(2) by blast
  ultimately show ?thesis by linarith
qed

lemma tight_bound:
  fixes w :: "nat \<Rightarrow> rat"
  assumes k: "k < n" and P: "P \<subseteq> {..<n}"
    and small: "\<forall>l \<in> P. \<bar>w l\<bar> < e"
    and sign: "(\<forall>l \<in> {..<n} - P. 0 \<le> w l) \<or> (\<forall>l \<in> {..<n} - P. w l \<le> 0)"
    and nz: "w k \<noteq> 0"
    and e: "0 \<le> e"
  shows "\<bar>w k\<bar> + e * of_nat (card {l \<in> P. w l = 0}) \<le> \<bar>sum w {..<n}\<bar> + e * (of_nat n - 1)"
proof -
  define Z where "Z = {l \<in> P. w l = 0}"
  have finP: "finite P" using P by (rule finite_subset) simp
  have finZ: "finite Z" using finP by (simp add: Z_def)
  have ZP: "Z \<subseteq> P" by (auto simp: Z_def)
  have kZ: "k \<notin> Z" using nz by (simp add: Z_def)
  show ?thesis
  proof (cases "k \<in> P")
    case False
    define R where "R = {..<n} - P"
    have kR: "k \<in> R" using k False by (simp add: R_def)
    have "finite R" by (simp add: R_def)
    then have wk: "\<bar>w k\<bar> \<le> \<bar>sum w R\<bar>"
      using kR sign unfolding R_def by (intro abs_le_sum_same_sign)
    have split: "sum w {..<n} = sum w R + sum w P"
      unfolding R_def using P by (intro sum.subset_diff) simp_all
    have "\<bar>sum w P\<bar> \<le> sum (\<lambda>l. \<bar>w l\<bar>) P" by (rule sum_abs)
    also have "sum (\<lambda>l. \<bar>w l\<bar>) P = sum (\<lambda>l. \<bar>w l\<bar>) (P - Z)"
      using ZP finP by (intro sum.mono_neutral_right) (auto simp: Z_def)
    also have "\<dots> \<le> of_nat (card (P - Z)) * e"
      using small by (intro sum_bounded_above) (simp add: less_imp_le)
    finally have sumP: "\<bar>sum w P\<bar> \<le> of_nat (card (P - Z)) * e" .
    have "card (P - Z) = card P - card Z"
      using finZ ZP by (rule card_Diff_subset)
    moreover have "card Z \<le> card P" using ZP finP by (rule card_mono [rotated])
    ultimately have cards: "card (P - Z) + card Z = card P" by simp
    have "P \<subseteq> {..<n} - {k}" using P False by auto
    then have "card P \<le> card ({..<n} - {k})" by (intro card_mono) simp_all
    also have "\<dots> = n - 1" using k by simp
    finally have "card (P - Z) + card Z + 1 \<le> n" using cards k by linarith
    then have "(of_nat (card (P - Z) + card Z + 1) :: rat) \<le> of_nat n"
      by (rule of_nat_mono)
    then have "(of_nat (card (P - Z)) :: rat) + of_nat (card Z) \<le> of_nat n - 1"
      by (simp add: le_diff_eq)
    then have "(of_nat (card (P - Z)) + of_nat (card Z)) * e \<le> (of_nat n - 1) * e"
      using e by (rule mult_right_mono)
    then have "of_nat (card (P - Z)) * e + e * of_nat (card Z) \<le> e * (of_nat n - 1)"
      by (simp add: algebra_simps)
    then show ?thesis using wk split sumP unfolding Z_def [symmetric] by linarith
  next
    case True
    then have wk: "\<bar>w k\<bar> < e" using small by blast
    have sub: "Z \<subseteq> {..<n} - {k}" using ZP P kZ by auto
    show ?thesis
    proof (cases "Z = {..<n} - {k}")
      case True
      have "sum w {..<n} = w k + sum w ({..<n} - {k})"
        using k by (intro sum.remove) simp_all
      also have "sum w ({..<n} - {k}) = 0"
        unfolding True [symmetric] by (intro sum.neutral) (simp add: Z_def)
      finally have "sum w {..<n} = w k" by simp
      moreover have "card Z + 1 = n" using k by (simp add: True)
      then have "(of_nat (card Z + 1) :: rat) = of_nat n" by (simp only:)
      then have "(of_nat (card Z) :: rat) = of_nat n - 1" by simp
      ultimately show ?thesis unfolding Z_def [symmetric] by simp
    next
      case False
      then have "Z \<subset> {..<n} - {k}" using sub by blast
      then have "card Z < card ({..<n} - {k})" by (intro psubset_card_mono) simp_all
      then have "card Z + 1 + 1 \<le> n" using k by simp
      then have "(of_nat (card Z + 1 + 1) :: rat) \<le> of_nat n" by (rule of_nat_mono)
      then have "(of_nat (card Z) :: rat) + 1 \<le> of_nat n - 1" by (simp add: le_diff_eq)
      then have "(of_nat (card Z) + 1) * e \<le> (of_nat n - 1) * e"
        using e by (rule mult_right_mono)
      then have "e * of_nat (card Z) + e \<le> e * (of_nat n - 1)"
        by (simp add: algebra_simps)
      then show ?thesis using wk unfolding Z_def [symmetric] by linarith
    qed
  qed
qed

lemma sum_list_snd_nth:
  "sum_list (map snd b) = sum (\<lambda>l. snd (b ! l)) {..<length b}"
  for b :: "(string \<times> rat) list"
proof -
  have "sum_list (map snd b) = (\<Sum>l = 0..<length (map snd b). map snd b ! l)"
    by (rule sum_list_sum_nth)
  also have "\<dots> = sum (\<lambda>l. snd (b ! l)) {..<length b}"
    by (intro sum.cong) (auto simp: atLeast0LessThan)
  finally show ?thesis .
qed

text \<open>
  The transfers that are not listed. \<open>unlisted\<close> is what the working balance of a user
  has moved by without a settlement to show for it. Every such transfer is of at most
  0.01 and empties one of the two places it joins, which a pointer then passes; so the
  unlisted amount of a user is at most 0.01 for each place that was passed empty, and at
  most 0.01 for each other user.
\<close>

definition zeroed :: "(string \<times> decimal) list \<Rightarrow> int \<Rightarrow> int \<Rightarrow> nat set" where
  "zeroed b i j = {l. l < length b \<and> (int l < i \<or> j < int l) \<and> snd (b ! l) = 0}"

definition unlisted ::
  "(string \<times> decimal) list \<Rightarrow> (string \<times> decimal) list \<Rightarrow> settlement list \<Rightarrow> nat \<Rightarrow> rat" where
  "unlisted b0 b S k =
     (if snd (b0 ! k) \<le> 0 then snd (b ! k) - (snd (b0 ! k) + paid S (fst (b0 ! k)))
      else snd (b0 ! k) - received S (fst (b0 ! k)) - snd (b ! k))"

definition settle_dust :: "(string \<times> decimal) list \<Rightarrow> settle_state \<Rightarrow> bool" where
  "settle_dust b0 s =
     (case s of (b, i, j, S) \<Rightarrow>
        (\<forall>k < length b0.
           unlisted b0 b S k \<le> epsilon * of_nat (card (zeroed b i j)) \<and>
           unlisted b0 b S k \<le> epsilon * (of_nat (length b0) - 1)))"

lemma finite_zeroed [simp]: "finite (zeroed b i j)"
proof -
  have "zeroed b i j \<subseteq> {..<length b}" by (auto simp: zeroed_def)
  then show ?thesis by (rule finite_subset) simp
qed

lemma settle_dust_init: "settle_dust b0 (b0, i, j, [])"
proof -
  have "0 \<le> epsilon * (of_nat (length b0) - 1)" if "k < length b0" for k
  proof -
    have "1 \<le> length b0" using that by linarith
    then have "(of_nat 1 :: rat) \<le> of_nat (length b0)" by (rule of_nat_mono)
    then show ?thesis by simp
  qed
  then show ?thesis by (simp add: settle_dust_def unlisted_def)
qed

lemma settle_dust_step:
  assumes inv: "settle_inv b0 s" and acc: "settle_acc g b0 s" and res: "settle_res b0 s"
    and dust: "settle_dust b0 s"
    and step: "settle_step s = Some s'"
    and dist: "distinct (map fst b0)"
    and bound: "\<forall>k < length b0. \<bar>snd (b0 ! k)\<bar> < 10 ^ 28 * pow10 g"
  shows "settle_dust b0 s'"
proof -
  obtain b i j S where s: "s = (b, i, j, S)" by (cases s)
  define n where "n = length b0"
  define c where "c = i + (int n - 1 - j)"
  from inv have len: "length b = n" and names: "map fst b = map fst b0"
    by (auto simp: settle_inv_def s n_def)
  from res have ptr: "0 \<le> i" "i \<le> j + 1" "j < int n"
    and cnt: "\<And>k. k < n \<Longrightarrow>
        (snd (b0 ! k) \<le> 0 \<longrightarrow>
           snd (b ! k) - (snd (b0 ! k) + paid S (fst (b0 ! k))) \<le> epsilon * of_int c) \<and>
        (0 \<le> snd (b0 ! k) \<longrightarrow>
           snd (b0 ! k) - received S (fst (b0 ! k)) - snd (b ! k) \<le> epsilon * of_int c)"
    by (auto simp: settle_res_def s c_def n_def)
  have old: "unlisted b0 b S k \<le> epsilon * of_int c" if "k < n" for k
    using cnt [OF that] by (cases "snd (b0 ! k) \<le> 0") (simp_all add: unlisted_def)
  from dust have d1: "\<And>k. k < n \<Longrightarrow> unlisted b0 b S k \<le> epsilon * of_nat (card (zeroed b i j))"
    and d2: "\<And>k. k < n \<Longrightarrow> unlisted b0 b S k \<le> epsilon * (of_nat n - 1)"
    by (auto simp: settle_dust_def s n_def)
  have name: "fst (b ! k) = fst (b0 ! k)" if "k < n" for k
    using that names len unfolding n_def by (metis nth_map)
  have name_inj: "fst (b0 ! k) = fst (b0 ! l) \<longleftrightarrow> k = l" if "k < n" "l < n" for k l
    using that dist unfolding n_def by (metis length_map nth_eq_iff_index_eq nth_map)
  from step [unfolded s] show ?thesis
  proof (cases rule: settle_step_Some)
    case small
    have "zeroed b i j \<subseteq> zeroed b (i + 1) (j - 1)" by (auto simp: zeroed_def)
    then have "card (zeroed b i j) \<le> card (zeroed b (i + 1) (j - 1))"
      by (intro card_mono) simp_all
    then have "epsilon * of_nat (card (zeroed b i j))
        \<le> epsilon * of_nat (card (zeroed b (i + 1) (j - 1)))"
      by (intro mult_left_mono) simp_all
    then have "unlisted b0 b S k \<le> epsilon * of_nat (card (zeroed b (i + 1) (j - 1)))"
      if "k < n" for k
      using d1 [OF that] by linarith
    then show ?thesis
      unfolding small(4) settle_dust_def prod.case n_def [symmetric] using d2 by blast
  next
    case (transfer debtor debt creditor credit a i' j')
    define I where "I = nat i"
    define J where "J = nat j"
    have IJ: "I \<noteq> J" "I < n" "J < n" "int I = i" "int J = j"
      using transfer(1-3) len by (simp_all add: I_def J_def)
    have bI: "b ! I = (debtor, debt)" and bJ: "b ! J = (creditor, credit)"
      using transfer(4,5) by (simp_all add: I_def J_def)
    note ex = transfer_exact [OF inv [unfolded s] acc [unfolded s] bound
        IJ(2,3) [unfolded n_def] bI bJ transfer(6,7,8)]
    have a: "0 < a" "a \<le> - debt" "a \<le> credit" "debt + a = 0 \<or> credit - a = 0"
      using ex(1) transfer(6,7) by (auto simp: min_def)
    define b' where "b' = b[I := (debtor, debt + a), J := (creditor, credit - a)]"
    define S' where "S' = (if epsilon < a then S @ [(debtor, creditor, a)] else S)"
    have i': "i' = (if \<bar>debt + a\<bar> < epsilon then i + 1 else i)"
      using transfer(10) by (simp add: ex(2,4))
    have j': "j' = (if \<bar>credit - a\<bar> < epsilon then j - 1 else j)"
      using transfer(11) by (simp add: ex(3,5))
    have s': "s' = (b', i', j', S')"
      using transfer(9) by (simp add: b'_def S'_def ex(2,3) I_def J_def)
    have ptr': "i \<le> i'" "i' \<le> i + 1" "j - 1 \<le> j'" "j' \<le> j"
      by (simp_all add: i' j')
    have len': "length b' = n" by (simp add: b'_def len)
    have wI: "snd (b' ! I) = debt + a" and wJ: "snd (b' ! J) = credit - a"
      using IJ len by (simp_all add: b'_def)
    have wk: "b' ! k = b ! k" if "k \<noteq> I" "k \<noteq> J" for k
      using that by (simp add: b'_def)
    have uI: "fst (b0 ! I) = debtor" and uJ: "fst (b0 ! J) = creditor"
      using name [OF IJ(2)] name [OF IJ(3)] by (simp_all add: bI bJ)
    have dc: "debtor \<noteq> creditor"
      using name_inj [OF IJ(2,3)] IJ(1) by (simp add: uI uJ)
    have xI: "snd (b0 ! I) < 0" and xJ: "0 < snd (b0 ! J)"
      using ex(6,7) transfer(6,7) by linarith+
    define Z where "Z = zeroed b i j"
    define Z' where "Z' = zeroed b' i' j'"
    have notin: "I \<notin> Z" "J \<notin> Z"
      using IJ(4,5) transfer(1) by (auto simp: Z_def zeroed_def)
    have sub: "Z \<subseteq> Z'"
    proof
      fix l assume l: "l \<in> Z"
      then have "l \<noteq> I" "l \<noteq> J" using notin by auto
      then have "b' ! l = b ! l" by (rule wk)
      moreover have "int l < i' \<or> j' < int l" using l ptr' by (auto simp: Z_def zeroed_def)
      ultimately show "l \<in> Z'"
        using l by (simp add: Z_def Z'_def zeroed_def len len')
    qed
    have "I \<in> Z' \<or> J \<in> Z'"
    proof -
      have e0: "(0 :: rat) < epsilon" by simp
      from a(4) show ?thesis
      proof
        assume z: "debt + a = 0"
        then have "i' = i + 1" using e0 by (simp add: i')
        then have "I \<in> Z'" using IJ(2,4) z by (simp add: Z'_def zeroed_def len' wI)
        then show ?thesis ..
      next
        assume z: "credit - a = 0"
        then have "j' = j - 1" using e0 by (simp add: j')
        then have "J \<in> Z'" using IJ(3,5) z by (simp add: Z'_def zeroed_def len' wJ)
        then show ?thesis ..
      qed
    qed
    then obtain m where m: "m \<in> Z'" "m \<notin> Z" using notin by blast
    have "insert m Z \<subseteq> Z'" using sub m(1) by simp
    then have "card (insert m Z) \<le> card Z'" by (intro card_mono) (simp_all add: Z'_def)
    then have grow: "card Z + 1 \<le> card Z'" using m(2) by (simp add: Z_def)
    then have "(of_nat (card Z + 1) :: rat) \<le> of_nat (card Z')" by (rule of_nat_mono)
    then have "(of_nat (card Z) + 1) * epsilon \<le> of_nat (card Z') * epsilon"
      by (intro mult_right_mono) simp_all
    then have grow_eps: "epsilon * of_nat (card Z) + epsilon \<le> epsilon * of_nat (card Z')"
      by (simp add: algebra_simps)
    have "c + 2 \<le> int n" using transfer(1) by (simp add: c_def)
    then have "(of_int (c + 2) :: rat) \<le> of_int (int n)" by (simp only: of_int_le_iff)
    then have "(of_int c + 1) * epsilon \<le> (of_nat n - 1) * epsilon"
      by (intro mult_right_mono) simp_all
    then have cnt_eps: "epsilon * of_int c + epsilon \<le> epsilon * (of_nat n - 1)"
      by (simp add: algebra_simps)
    have paid': "paid S' u = paid S u + (if epsilon < a \<and> u = debtor then a else 0)" for u
      by (auto simp: S'_def)
    have received': "received S' u = received S u + (if epsilon < a \<and> u = creditor then a else 0)"
      for u
      by (auto simp: S'_def)
    have u': "unlisted b0 b' S' k \<le> unlisted b0 b S k + epsilon" if k: "k < n" for k
    proof -
      consider "k = I" | "k = J" | "k \<noteq> I" "k \<noteq> J" by blast
      then show ?thesis
      proof cases
        case 1
        have "unlisted b0 b' S' I = debt + a - (snd (b0 ! I) + paid S' debtor)"
          using xI by (simp add: unlisted_def wI uI)
        moreover have "unlisted b0 b S I = debt - (snd (b0 ! I) + paid S debtor)"
          using xI by (simp add: unlisted_def bI uI)
        moreover have "a - (if epsilon < a then a else 0) \<le> epsilon" by simp
        ultimately show ?thesis unfolding 1 paid' by (simp split: if_splits)
      next
        case 2
        have "unlisted b0 b' S' J = snd (b0 ! J) - received S' creditor - (credit - a)"
          using xJ by (simp add: unlisted_def wJ uJ)
        moreover have "unlisted b0 b S J = snd (b0 ! J) - received S creditor - credit"
          using xJ by (simp add: unlisted_def bJ uJ)
        moreover have "a - (if epsilon < a then a else 0) \<le> epsilon" by simp
        ultimately show ?thesis unfolding 2 received' by (simp split: if_splits)
      next
        case 3
        have "fst (b0 ! k) \<noteq> debtor" "fst (b0 ! k) \<noteq> creditor"
          using name_inj [OF k IJ(2)] name_inj [OF k IJ(3)] 3 by (simp_all add: uI uJ)
        then have "unlisted b0 b' S' k = unlisted b0 b S k"
          by (simp add: unlisted_def wk [OF 3] paid' received')
        then show ?thesis by simp
      qed
    qed
    have "unlisted b0 b' S' k \<le> epsilon * of_nat (card Z') \<and>
        unlisted b0 b' S' k \<le> epsilon * (of_nat n - 1)" if k: "k < n" for k
    proof
      have "unlisted b0 b S k \<le> epsilon * of_nat (card Z)"
        using d1 [OF k] by (simp only: Z_def)
      then show "unlisted b0 b' S' k \<le> epsilon * of_nat (card Z')"
        using u' [OF k] grow_eps by linarith
      show "unlisted b0 b' S' k \<le> epsilon * (of_nat n - 1)"
        using u' [OF k] old [OF k] cnt_eps by linarith
    qed
    then show ?thesis
      unfolding s' settle_dust_def prod.case n_def [symmetric] Z'_def [symmetric] by blast
  qed
qed

text \<open>
  When the loop stops, by the pointers meeting or by the break of line 321 (which needs
  the balances sorted: a debtor with nothing left to pay has only creditors after it),
  the places between the pointers hold amounts of one sign. What is left of a user's net
  balance after the settlements is the working balance and the unlisted amount; together
  they are within the sum of the net balances and 0.01 for each other user.
\<close>

lemma settle_dust_final:
  assumes inv: "settle_inv b0 (b, i, j, S)" and acc: "settle_acc g b0 (b, i, j, S)"
    and res: "settle_res b0 (b, i, j, S)" and dust: "settle_dust b0 (b, i, j, S)"
    and none: "settle_step (b, i, j, S) = None"
    and sorted: "sorted (map snd b0)"
    and k: "k < length b0"
  shows "\<bar>snd (b0 ! k) + paid S (fst (b0 ! k)) - received S (fst (b0 ! k))\<bar>
           \<le> \<bar>sum_list (map snd b0)\<bar> + (of_nat (length b0) - 1) * epsilon"
proof -
  define n where "n = length b0"
  define w where "w = (\<lambda>l. snd (b ! l))"
  from inv have len: "length b = n"
    and vals: "\<And>k. k < n \<Longrightarrow>
        (snd (b0 ! k) \<le> 0 \<longrightarrow> snd (b0 ! k) \<le> w k \<and> w k \<le> 0) \<and>
        (0 \<le> snd (b0 ! k) \<longrightarrow> 0 \<le> w k \<and> w k \<le> snd (b0 ! k))"
    by (auto simp: settle_inv_def n_def w_def)
  from acc have accs: "\<And>k. k < n \<Longrightarrow>
        (snd (b0 ! k) \<le> 0 \<longrightarrow>
           received S (fst (b0 ! k)) = 0 \<and> snd (b0 ! k) + paid S (fst (b0 ! k)) \<le> w k) \<and>
        (0 \<le> snd (b0 ! k) \<longrightarrow>
           paid S (fst (b0 ! k)) = 0 \<and> w k \<le> snd (b0 ! k) - received S (fst (b0 ! k)))"
    by (auto simp: settle_acc_def n_def w_def)
  from res have ptr: "0 \<le> i" "i \<le> j + 1" "j < int n"
    and total: "sum_list (map snd b) = sum_list (map snd b0)"
    and passed: "\<And>k. k < n \<Longrightarrow> int k < i \<or> j < int k \<Longrightarrow> \<bar>w k\<bar> < epsilon"
    and signs: "\<And>k. k < n \<Longrightarrow> i \<le> int k \<Longrightarrow> int k \<le> j \<Longrightarrow>
        (snd (b0 ! k) < 0 \<longrightarrow> w k < 0) \<and> (0 < snd (b0 ! k) \<longrightarrow> 0 < w k)"
    by (auto simp: settle_res_def n_def w_def)
  from dust have d1: "\<And>k. k < n \<Longrightarrow> unlisted b0 b S k \<le> epsilon * of_nat (card (zeroed b i j))"
    and d2: "\<And>k. k < n \<Longrightarrow> unlisted b0 b S k \<le> epsilon * (of_nat n - 1)"
    by (auto simp: settle_dust_def n_def)
  have ord: "snd (b0 ! l) \<le> snd (b0 ! m)" if "l \<le> m" "m < n" for l m
    using sorted that by (simp add: sorted_iff_nth_mono n_def)
  define P where "P = {l. l < n \<and> (int l < i \<or> j < int l)}"
  define R where "R = {l. l < n \<and> i \<le> int l \<and> int l \<le> j}"
  have RP: "{..<n} - P = R" by (auto simp: P_def R_def)
  have stop: "j \<le> i \<or> (i < j \<and> (0 \<le> w (nat i) \<or> w (nat j) \<le> 0))"
    using settle_step_None [OF none ptr(1)] ptr(3) by (simp add: len w_def)
  have sign: "(\<forall>l \<in> R. 0 \<le> w l) \<or> (\<forall>l \<in> R. w l \<le> 0)"
  proof -
    consider "j \<le> i" | "i < j" "0 \<le> w (nat i)" | "i < j" "w (nat j) \<le> 0"
      using stop by blast
    then show ?thesis
    proof cases
      case 1
      then have "l = nat i" if "l \<in> R" for l using that by (auto simp: R_def)
      then show ?thesis by (metis linear)
    next
      case 2
      have I: "nat i < n" "i \<le> int (nat i)" "int (nat i) \<le> j"
        using 2(1) ptr by simp_all
      have x: "0 \<le> snd (b0 ! nat i)" using signs [OF I] 2(2) by auto
      have "0 \<le> snd (b0 ! l)" if "l \<in> R" for l
      proof -
        have "nat i \<le> l" "l < n" using that by (auto simp: R_def)
        then show ?thesis using ord [of "nat i" l] x by linarith
      qed
      then show ?thesis using vals by (auto simp: R_def)
    next
      case 3
      have J: "nat j < n" "i \<le> int (nat j)" "int (nat j) \<le> j"
        using 3(1) ptr by simp_all
      have x: "snd (b0 ! nat j) \<le> 0" using signs [OF J] 3(2) by auto
      have "snd (b0 ! l) \<le> 0" if "l \<in> R" for l
      proof -
        have "l \<le> nat j" using that by (auto simp: R_def)
        then show ?thesis using ord [of l "nat j"] J(1) x by linarith
      qed
      then show ?thesis using vals by (auto simp: R_def)
    qed
  qed
  have kn: "k < n" using k by (simp add: n_def)
  have sum: "sum w {..<n} = sum_list (map snd b0)"
    using sum_list_snd_nth [of b] by (simp add: total len w_def)
  have Z: "zeroed b i j = {l \<in> P. w l = 0}"
    by (auto simp: zeroed_def P_def len w_def)
  define f where "f = snd (b0 ! k) + paid S (fst (b0 ! k)) - received S (fst (b0 ! k))"
  define u where "u = unlisted b0 b S k"
  have fu: "\<bar>f\<bar> = \<bar>w k\<bar> + u \<and> 0 \<le> u"
  proof (cases "snd (b0 ! k) \<le> 0")
    case True
    then have "received S (fst (b0 ! k)) = 0" "snd (b0 ! k) + paid S (fst (b0 ! k)) \<le> w k"
      "w k \<le> 0"
      using accs [OF kn] vals [OF kn] by blast+
    moreover have "u = w k - (snd (b0 ! k) + paid S (fst (b0 ! k)))"
      using True by (simp add: u_def unlisted_def w_def)
    ultimately show ?thesis unfolding f_def by linarith
  next
    case False
    then have "0 \<le> snd (b0 ! k)" by simp
    then have "paid S (fst (b0 ! k)) = 0" "w k \<le> snd (b0 ! k) - received S (fst (b0 ! k))"
      "0 \<le> w k"
      using accs [OF kn] vals [OF kn] by blast+
    moreover have "u = snd (b0 ! k) - received S (fst (b0 ! k)) - w k"
      using False by (simp add: u_def unlisted_def w_def)
    ultimately show ?thesis unfolding f_def by linarith
  qed
  have "\<bar>w k\<bar> + u \<le> \<bar>sum w {..<n}\<bar> + epsilon * (of_nat n - 1)"
  proof (cases "w k = 0")
    case True
    then show ?thesis using d2 [OF kn] by (simp add: u_def)
  next
    case False
    have "\<bar>w k\<bar> + epsilon * of_nat (card {l \<in> P. w l = 0})
        \<le> \<bar>sum w {..<n}\<bar> + epsilon * (of_nat n - 1)"
    proof (rule tight_bound)
      show "k < n" by (rule kn)
      show "P \<subseteq> {..<n}" by (auto simp: P_def)
      show "\<forall>l \<in> P. \<bar>w l\<bar> < epsilon" using passed by (auto simp: P_def)
      show "(\<forall>l \<in> {..<n} - P. 0 \<le> w l) \<or> (\<forall>l \<in> {..<n} - P. w l \<le> 0)"
        unfolding RP by (rule sign)
      show "w k \<noteq> 0" by (rule False)
      show "0 \<le> epsilon" by simp
    qed
    moreover have "u \<le> epsilon * of_nat (card {l \<in> P. w l = 0})"
      using d1 [OF kn] by (simp only: u_def Z)
    ultimately show ?thesis by linarith
  qed
  then have "\<bar>f\<bar> \<le> \<bar>sum_list (map snd b0)\<bar> + epsilon * (of_nat n - 1)"
    using fu by (simp only: sum)
  then show ?thesis by (simp add: f_def n_def mult.commute)
qed

lemma settle_loop_residue:
  assumes rep: "\<forall>p \<in> set b0. representable (snd p)" and dist: "distinct (map fst b0)"
    and grid: "\<forall>p \<in> set b0. on_grid g (snd p)"
    and bound: "\<forall>p \<in> set b0. \<bar>snd p\<bar> < 10 ^ 28 * pow10 g"
    and sorted: "sorted (map snd b0)"
  shows "\<forall>(u, x) \<in> set b0.
           \<bar>x + paid (settle_loop (b0, 0, int (length b0) - 1, [])) u
              - received (settle_loop (b0, 0, int (length b0) - 1, [])) u\<bar>
             \<le> \<bar>sum_list (map snd b0)\<bar> + (of_nat (length b0) - 1) * epsilon"
proof (rule settle_loop_rule
    [where P = "\<lambda>s. settle_inv b0 s \<and> settle_acc g b0 s \<and> settle_res b0 s \<and> settle_dust b0 s"])
  show "settle_inv b0 (b0, 0, int (length b0) - 1, []) \<and>
        settle_acc g b0 (b0, 0, int (length b0) - 1, []) \<and>
        settle_res b0 (b0, 0, int (length b0) - 1, []) \<and>
        settle_dust b0 (b0, 0, int (length b0) - 1, [])"
    using rep grid
    by (simp add: settle_inv_init settle_acc_init settle_res_init settle_dust_init)
next
  fix s s'
  assume P: "settle_inv b0 s \<and> settle_acc g b0 s \<and> settle_res b0 s \<and> settle_dust b0 s"
    and step: "settle_step s = Some s'"
  have b: "\<forall>k < length b0. \<bar>snd (b0 ! k)\<bar> < 10 ^ 28 * pow10 g" using bound by simp
  have "settle_inv b0 s'" using P step settle_inv_step by blast
  moreover have "settle_acc g b0 s'" using P step dist b settle_acc_step by blast
  moreover have "settle_res b0 s'" using P step dist b settle_res_step by blast
  moreover have "settle_dust b0 s'" using P step dist b settle_dust_step by blast
  ultimately show "settle_inv b0 s' \<and> settle_acc g b0 s' \<and> settle_res b0 s' \<and>
      settle_dust b0 s'" by blast
next
  fix b i j S
  assume P: "settle_inv b0 (b, i, j, S) \<and> settle_acc g b0 (b, i, j, S) \<and>
      settle_res b0 (b, i, j, S) \<and> settle_dust b0 (b, i, j, S)"
    and none: "settle_step (b, i, j, S) = None"
  show "\<forall>(u, x) \<in> set b0. \<bar>x + paid S u - received S u\<bar>
      \<le> \<bar>sum_list (map snd b0)\<bar> + (of_nat (length b0) - 1) * epsilon"
  proof clarify
    fix u x assume "(u, x) \<in> set b0"
    then obtain k where k: "k < length b0" and bk: "b0 ! k = (u, x)"
      by (auto simp: in_set_conv_nth)
    from P have "settle_inv b0 (b, i, j, S)" "settle_acc g b0 (b, i, j, S)"
      "settle_res b0 (b, i, j, S)" "settle_dust b0 (b, i, j, S)" by blast+
    from settle_dust_final [OF this none sorted k]
    show "\<bar>x + paid S u - received S u\<bar>
      \<le> \<bar>sum_list (map snd b0)\<bar> + (of_nat (length b0) - 1) * epsilon"
      by (simp add: bk)
  qed
qed

text \<open>
  The first iteration meets the largest debt and the largest credit. When both are above
  0.01 it lists a settlement, and a list is only ever extended.
\<close>

lemma settle_loop_progress:
  assumes rep: "\<forall>p \<in> set b0. representable (snd p)" and sorted: "sorted (map snd b0)"
    and debtor: "(u, x) \<in> set b0" "x < - epsilon"
    and creditor: "(v, y) \<in> set b0" "epsilon < y"
  shows "settle_loop (b0, 0, int (length b0) - 1, []) \<noteq> []"
proof -
  define n where "n = length b0"
  obtain k where k: "k < n" "b0 ! k = (u, x)"
    using debtor(1) by (auto simp: in_set_conv_nth n_def)
  obtain l where l: "l < n" "b0 ! l = (v, y)"
    using creditor(1) by (auto simp: in_set_conv_nth n_def)
  have "x < y" using debtor(2) creditor(2) epsilon_pos by linarith
  then have "k \<noteq> l" using k(2) l(2) by auto
  then have n2: "2 \<le> n" using k(1) l(1) by linarith
  have ord: "snd (b0 ! p) \<le> snd (b0 ! q)" if "p \<le> q" "q < n" for p q
    using sorted that by (simp add: sorted_iff_nth_mono n_def)
  obtain d debt where d: "b0 ! 0 = (d, debt)" by (cases "b0 ! 0")
  obtain c credit where c: "b0 ! (n - 1) = (c, credit)" by (cases "b0 ! (n - 1)")
  have "debt \<le> x" using ord [of 0 k] k by (simp add: d)
  then have debt: "debt < - epsilon" using debtor(2) by linarith
  have "l \<le> n - 1" "n - 1 < n" using l(1) n2 by linarith+
  then have "snd (b0 ! l) \<le> snd (b0 ! (n - 1))" by (rule ord)
  then have "y \<le> credit" by (simp only: l(2) c snd_conv)
  then have credit: "epsilon < credit" using creditor(2) by linarith
  have "0 < length b0" using n2 unfolding n_def by linarith
  then have "b0 ! 0 \<in> set b0" by (rule nth_mem)
  then have "representable debt" using rep d by force
  then have "decimal_abs debt = \<bar>debt\<bar>" by (rule decimal_abs_representable)
  moreover have "debt < 0" using debt epsilon_pos [THEN less_imp_le] by linarith
  ultimately have ad: "decimal_abs debt = - debt" by simp
  have idx: "nat (int n - 1) = n - 1" "0 < int n - 1" using n2 by linarith+
  have e0: "0 < epsilon" by simp
  have nd: "epsilon < - debt" using debt by linarith
  have pos: "debt < 0" "0 < credit" "\<not> - debt < epsilon"
    using debt credit e0 by linarith+
  have amount: "epsilon < min (- debt) credit" using nd credit by simp
  have b_i: "b0 ! nat 0 = (d, debt)" by (simp add: d)
  have b_j: "b0 ! nat (int n - 1) = (c, credit)" by (simp only: idx(1) c)
  have "settle_step (b0, 0, int n - 1, []) \<noteq> None"
  proof
    assume "settle_step (b0, 0, int n - 1, []) = None"
    then have "int n - 1 \<le> 0 \<or>
        (0 < int n - 1 \<and> (0 \<le> snd (b0 ! nat 0) \<or> snd (b0 ! nat (int n - 1)) \<le> 0))"
      by (rule settle_step_None) (simp_all add: n_def)
    then have "int n - 1 \<le> 0 \<or> (0 < int n - 1 \<and> (0 \<le> debt \<or> credit \<le> 0))"
      by (simp only: b_i b_j snd_conv)
    then show False using idx(2) pos(1,2) by linarith
  qed
  then obtain s' where first: "settle_step (b0, 0, int n - 1, []) = Some s'" by blast
  from first have listed: "snd (snd (snd s')) \<noteq> []"
  proof (cases rule: settle_step_Some)
    case small
    from small(5) have "decimal_abs debt < epsilon" by (simp only: b_i snd_conv)
    then show ?thesis using pos(3) by (simp only: ad)
  next
    case (transfer debtor debt' creditor credit' a i' j')
    have "(debtor, debt') = (d, debt)" "(creditor, credit') = (c, credit)"
      using transfer(4,5) by (simp_all only: b_i b_j)
    then have "debt' = debt" "credit' = credit" by simp_all
    then have "epsilon < a" using amount by (simp add: transfer(8) ad)
    then show ?thesis by (simp add: transfer(9))
  qed
  have "settle_loop (b0, 0, int n - 1, []) = settle_loop s'"
    using first by (subst settle_loop.simps) simp
  moreover have "settle_loop s' \<noteq> []"
  proof (rule settle_loop_rule [where P = "\<lambda>s. snd (snd (snd s)) \<noteq> []"])
    show "snd (snd (snd s')) \<noteq> []" by (rule listed)
  next
    fix s s' assume P: "snd (snd (snd s)) \<noteq> []" and step: "settle_step s = Some s'"
    obtain b i j S where s: "s = (b, i, j, S)" by (cases s)
    from step [unfolded s] show "snd (snd (snd s')) \<noteq> []"
      using P by (cases rule: settle_step_Some) (simp_all add: s)
  next
    fix b i j S assume "snd (snd (snd (b, i, j, S))) \<noteq> []"
    then show "S \<noteq> []" by simp
  qed
  ultimately show ?thesis by (simp add: n_def)
qed


lemma on_grid_numeral [simp]: "on_grid 0 (numeral k)" "on_grid 0 (- numeral k)"
proof -
  have "(numeral k :: rat) = of_int (numeral k) * pow10 0" by simp
  then show "on_grid 0 (numeral k)" unfolding on_grid_def by blast
  then show "on_grid 0 (- numeral k)" by (rule on_grid_minus)
qed


text \<open>
  The claim as stated fails. A pays 0.018 for stamps that B and C share equally: B and C
  each owe 0.009 and A is owed 0.018. The first iteration takes the 0.009 of B off the
  credit of A without a settlement, the amount not being above 0.01 (line 325), and
  then leaves both B and A behind, the rest of A's credit being below 0.01 (lines
  333-336). No settlement is returned, and A is still owed 0.018.
\<close>

definition stamps :: transaction where
  "stamps = \<lparr>transaction_id = ''t2'', description = ''stamps'', date = 0,
     payers = [(''A'', 9 / 500)], participants = [''B'', ''C''], split_type = EQUAL,
     split_details = []\<rparr>"

definition stamps_ledger :: expense_manager where
  "stamps_ledger =
     snd (add_transaction dinner_users ''t2'' 0 ''stamps'' [(''A'', 9 / 500)] [''B'', ''C'']
       EQUAL None)"

lemma context_round_stamps [simp]:
  "context_round (9 / 500) = 9 / 500" "context_round (9 / 1000) = 9 / 1000"
  using context_round_exact [of 18 "- 3"] context_round_exact [of 9 "- 3"]
  by (simp_all add: pow10_def)

lemma stamps_fields [simp]:
  "payers stamps = [(''A'', 9 / 500)]"
  "participants stamps = [''B'', ''C'']"
  "split_type stamps = EQUAL"
  "split_details stamps = []"
  by (simp_all add: stamps_def)

lemma stamps_total: "total_amount stamps = 9 / 500"
  by (simp add: total_amount_def py_sum_def decimal_add_def)

lemma stamps_init:
  "Transaction_init ''t2'' ''stamps'' 0 [(''A'', 9 / 500)] [''B'', ''C''] EQUAL None = Inr stamps"
  by (simp add: Transaction_init_def stamps_def Let_def validate_def)

lemma stamps_transactions: "map snd (transactions stamps_ledger) = [stamps]"
  by (simp add: stamps_ledger_def add_transaction_def dinner_users_ids stamps_init)
    (simp add: dinner_users_eq)

lemma stamps_ledger_ids: "user_ids stamps_ledger = [''A'', ''B'', ''C'']"
  using dinner_users_ids
  by (simp add: stamps_ledger_def add_transaction_def stamps_init user_ids_def)

lemma stamps_balances:
  "get_user_balance stamps ''A'' = Inr (9 / 500)"
  "get_user_balance stamps ''B'' = Inr (- (9 / 1000))"
  "get_user_balance stamps ''C'' = Inr (- (9 / 1000))"
  by (simp_all add: get_user_balance_def get_user_share_def get_user_payment_def
      stamps_total decimal_truediv_def decimal_sub_def)

lemma stamps_net:
  "net_balances stamps_ledger (user_ids stamps_ledger)
     = Inr [(''A'', 9 / 500), (''B'', - (9 / 1000)), (''C'', - (9 / 1000))]"
  by (simp add: stamps_ledger_ids net_balance_def stamps_transactions stamps_balances
      decimal_add_def)

lemma stamps_settle: "get_simplified_settlements stamps_ledger = Inr []"
  by (simp add: get_simplified_settlements_def stamps_net settle_loop.simps settle_step_def
      decimal_abs_def decimal_add_def decimal_sub_def epsilon_def Let_def)

lemma reachable_stamps_ledger: "reachable stamps_ledger"
  unfolding stamps_ledger_def dinner_users_def
  by (intro reachable.after_add_transaction reachable.after_add_user reachable_init)


end
